theory Spec2Isabelle
  imports Main "HOL-Library.AList"
begin

section \<open>The backend initializer: data model\<close>

text \<open>
  A shallow embedding of the class \<open>BackendInitializer\<close>. Private fields of the
  class are fields of the record \<open>backend\<close>; every \<open>throw\<close> is a value of the type
  \<open>error\<close>; asynchronous methods return an \<open>outcome\<close> together with the updated state.
\<close>

type_synonym plugin_id = string
type_synonym module_id = string

datatype scope = RootScope | PluginScope

text \<open>
  \<open>ServiceOrExtensionPoint\<close>: a service reference (with its scope) or an extension
  point, both with an \<open>id\<close>. A ref is an object, and the \<open>Set\<close>s of the initializer
  compare refs as objects, not by their \<open>id\<close>: the first field is the identity of the
  object, so that two refs with the same \<open>id\<close> can be two objects. The tables of the
  initializer and the service holder go by the \<open>id\<close>.
\<close>

type_synonym obj = nat

datatype ref = ServiceRef obj string scope | ExtensionPoint obj string

fun ref_id :: "ref \<Rightarrow> string" where
  "ref_id (ServiceRef a i sc) = i"
| "ref_id (ExtensionPoint a i) = i"

fun ref_scope :: "ref \<Rightarrow> scope" where
  "ref_scope (ServiceRef a i sc) = sc"
| "ref_scope (ExtensionPoint a i) = PluginScope"

text \<open>
  Implementations of services and extension points. The two lifecycle classes are the
  ones the initializer probes with \<open>instanceof\<close>; every other implementation is opaque.
\<close>

datatype impl =
    BackendLifecycleImpl
  | BackendPluginLifecycleImpl
  | FeatureDiscoveryImpl
  | RootLoggerImpl
  | OtherImpl nat

text \<open>
  The errors of the initializer, named as in the error taxonomy, each carrying what the
  message of the source interpolates. \<open>External\<close> stands for an error thrown by a
  collaborator (a service factory, an \<open>init.func\<close>, a lifecycle hook).
\<close>

datatype error =
    AlreadyStarted
  | FeatureAddedAfterStart
  | InvalidFeatureType string
  | ForbiddenServiceOverride string
  | DuplicateServiceImpl string
  | UnsupportedFeatureVersion string
  | MalformedFeature
  | ExtensionPointOwnershipViolation plugin_id plugin_id
  | UnresolvedDependencies "ref list"
  | DuplicateExtensionPoint string
  | DuplicatePluginRegistration plugin_id
  | DuplicateModuleRegistration module_id plugin_id
  | CircularModuleDependency plugin_id "module_id list"
  | ModuleStartupFailed module_id plugin_id error
  | PluginStartupFailed plugin_id error
  | UnexpectedRootLifecycle
  | UnexpectedPluginLifecycle
  | LifecycleAlreadyInvoked
  | ServiceHolderUndefined
  | External string

text \<open>
  \<open>EnumerableServiceHolder\<close>: \<open>get\<close> yields an implementation, \<open>undefined\<close>
  (\<open>None\<close>; the source tests the result for truthiness) or throws.
\<close>

record holder =
  get :: "ref \<Rightarrow> plugin_id \<Rightarrow> error + impl option"
  getServiceRefs :: "ref list"

text \<open>An entry of the extension-point table \<open>#extensionPoints\<close>.\<close>

record ext_entry =
  ep_impl :: impl
  ep_pluginId :: plugin_id

type_synonym ext_table = "string \<rightharpoonup> ext_entry"

text \<open>
  A JavaScript \<open>Set\<close> keeps insertion order and ignores a second \<open>add\<close> of the same
  value; for refs, of the same object.
\<close>

definition set_add :: "'a \<Rightarrow> 'a list \<Rightarrow> 'a list" where
  "set_add x xs = (if x \<in> set xs then xs else xs @ [x])"

definition new_Set :: "'a list \<Rightarrow> 'a list" where
  "new_Set xs = fold set_add xs []"

section \<open>Resolution of init dependencies\<close>

text \<open>
  The loop of \<open>#getInitDeps\<close> over \<open>Object.entries(deps)\<close>, with the accumulators
  \<open>result\<close> (a \<open>Map\<close>) and \<open>missingRefs\<close> (a \<open>Set\<close>).
\<close>

fun getInitDeps_loop ::
  "ext_table \<Rightarrow> holder \<Rightarrow> plugin_id \<Rightarrow> (string \<times> ref) list \<Rightarrow>
   (string \<times> impl) list \<Rightarrow> ref list \<Rightarrow> error + ((string \<times> impl) list \<times> ref list)" where
  "getInitDeps_loop eps h pluginId [] result missingRefs = Inr (result, missingRefs)"
| "getInitDeps_loop eps h pluginId ((name, r) # rest) result missingRefs =
     (case eps (ref_id r) of
        Some ep \<Rightarrow>
          if ep_pluginId ep \<noteq> pluginId
          then Inl (ExtensionPointOwnershipViolation (ep_pluginId ep) pluginId)
          else getInitDeps_loop eps h pluginId rest
                 (AList.update name (ep_impl ep) result) missingRefs
      | None \<Rightarrow>
          (case get h r pluginId of
             Inl e \<Rightarrow> Inl e
           | Inr (Some i) \<Rightarrow>
               getInitDeps_loop eps h pluginId rest (AList.update name i result) missingRefs
           | Inr None \<Rightarrow>
               getInitDeps_loop eps h pluginId rest result (set_add r missingRefs)))"

definition getInitDeps ::
  "ext_table \<Rightarrow> holder \<Rightarrow> (string \<times> ref) list \<Rightarrow> plugin_id \<Rightarrow> error + (string \<times> impl) list" where
  "getInitDeps eps h deps pluginId =
     (case getInitDeps_loop eps h pluginId deps [] [] of
        Inl e \<Rightarrow> Inl e
      | Inr (result, missingRefs) \<Rightarrow>
          if length missingRefs > 0 then Inl (UnresolvedDependencies missingRefs)
          else Inr result)"

section \<open>Features and the feature catalog\<close>

text \<open>
  \<open>r.init\<close>: the declared dependencies in the order of \<open>Object.entries\<close>, and
  \<open>func\<close>, whose promise is fulfilled (\<open>None\<close>) or rejected with a cause.
\<close>

record feature_init =
  deps :: "(string \<times> ref) list"
  func :: "(string \<times> impl) list \<Rightarrow> error option"

datatype registration =
    PluginRegistration plugin_id "(ref \<times> impl) list" feature_init
  | ModuleRegistration plugin_id module_id "(ref \<times> impl) list" feature_init

text \<open>
  A \<open>BackendFeature\<close> as the shape probes of \<open>#addFeature\<close> see it: the \<open>$$type\<close>
  tag, the \<open>service\<close> property of a service factory (absent otherwise), the
  \<open>version\<close> tag, and \<open>getRegistrations\<close> (absent unless it is a function).
\<close>

record feature =
  type_tag :: string
  service :: "ref option"
  version :: string
  getRegistrations :: "registration list option"

definition isServiceFactory :: "feature \<Rightarrow> bool" where
  "isServiceFactory f = (service f \<noteq> None)"

definition isInternalBackendFeature :: "feature \<Rightarrow> bool" where
  "isInternalBackendFeature f = (getRegistrations f \<noteq> None)"

text \<open>
  Modelled from the spec: \<open>coreServices\<close> and \<open>featureDiscoveryServiceRef\<close> are declared
  in a package that is not part of the sources. The spec names the plugin metadata, root
  lifecycle, per-plugin lifecycle, root logger and feature discovery services and their
  scopes; the strings stand for their ids and the numbers for the objects, of which
  only the distinctness matters.
\<close>

definition pluginMetadata_id :: string where
  "pluginMetadata_id = ''core.pluginMetadata''"

definition rootLifecycle_ref :: ref where
  "rootLifecycle_ref = ServiceRef 1 ''core.rootLifecycle'' RootScope"

definition lifecycle_ref :: ref where
  "lifecycle_ref = ServiceRef 2 ''core.lifecycle'' PluginScope"

definition rootLogger_ref :: ref where
  "rootLogger_ref = ServiceRef 3 ''core.rootLogger'' RootScope"

definition featureDiscoveryServiceRef :: ref where
  "featureDiscoveryServiceRef = ServiceRef 4 ''core.featureDiscovery'' RootScope"

text \<open>
  The result of an asynchronous method: its promise is fulfilled, rejected, or never
  settles.
\<close>

datatype outcome = Fulfilled | Rejected error | Pending

text \<open>What an observer of the process sees, in the order in which it happens.\<close>

datatype event =
    ModuleInitInvoked plugin_id module_id
  | ModuleInitCompleted plugin_id module_id
  | ModuleInitRejected plugin_id module_id
  | PluginInitInvoked plugin_id
  | PluginInitCompleted plugin_id
  | PluginInitRejected plugin_id
  | PluginStartupInvoked plugin_id
  | PluginStartupCompleted plugin_id
  | PluginStartupRejected plugin_id
  | RootStartupInvoked
  | RootStartupCompleted
  | RootStartupRejected
  | RootShutdownInvoked

text \<open>The listeners the initializer registers on \<open>process\<close>.\<close>

datatype handler = ExitHandler | LogUnhandledRejection | LogUncaughtException

text \<open>
  The private fields of \<open>BackendInitializer\<close>, followed by the part of the world it
  acts on: the listeners of \<open>process\<close>, the observed events, and the two fire-once
  flags of the root lifecycle service.
\<close>

record backend =
  startPromise :: "outcome option"
  features :: "feature list"
  extensionPoints :: ext_table
  serviceHolder :: "holder option"
  providedServiceFactories :: "feature list"
  defaultApiFactories :: "feature list"
  listeners :: "(string \<times> handler) list"
  events :: "event list"
  rootStartupInvoked :: bool
  rootShutdownInvoked :: bool
  exitCode :: "nat option"

definition BackendInitializer :: "feature list \<Rightarrow> backend" where
  "BackendInitializer defaults =
     \<lparr> startPromise = None, features = [], extensionPoints = Map.empty,
       serviceHolder = None, providedServiceFactories = [],
       defaultApiFactories = defaults, listeners = [], events = [],
       rootStartupInvoked = False, rootShutdownInvoked = False, exitCode = None \<rparr>"

text \<open>
  \<open>#addFeature\<close>. The probe \<open>isServiceFactory(feature)\<close> is the \<open>Some\<close> branch of
  the case on the \<open>service\<close> property, which also gives \<open>feature.service.id\<close>.
\<close>

definition addFeature :: "feature \<Rightarrow> backend \<Rightarrow> error + backend" where
  "addFeature f b =
     (if type_tag f \<noteq> ''@backstage/BackendFeature'' then Inl (InvalidFeatureType (type_tag f))
      else case service f of
        Some sref \<Rightarrow>
          if ref_id sref = pluginMetadata_id then Inl (ForbiddenServiceOverride pluginMetadata_id)
          else if find (\<lambda>sf. map_option ref_id (service sf) = Some (ref_id sref))
                    (providedServiceFactories b) \<noteq> None
          then Inl (DuplicateServiceImpl (ref_id sref))
          else Inr (b\<lparr>providedServiceFactories := providedServiceFactories b @ [f]\<rparr>)
      | None \<Rightarrow>
          if isInternalBackendFeature f then
            (if version f \<noteq> ''v1'' then Inl (UnsupportedFeatureVersion (version f))
             else Inr (b\<lparr>features := features b @ [f]\<rparr>))
          else Inl MalformedFeature)"

definition add :: "feature \<Rightarrow> backend \<Rightarrow> error + backend" where
  "add f b = (if startPromise b \<noteq> None then Inl FeatureAddedAfterStart else addFeature f b)"

fun addFeatures :: "feature list \<Rightarrow> backend \<Rightarrow> error option \<times> backend" where
  "addFeatures [] b = (None, b)"
| "addFeatures (f # fs) b =
     (case addFeature f b of Inl e \<Rightarrow> (Some e, b) | Inr b' \<Rightarrow> addFeatures fs b')"

section \<open>Indexing the registrations\<close>

record register_init =
  consumes :: "ref list"
  provides :: "ref list"
  init :: feature_init

record index =
  ix_extensionPoints :: ext_table
  pluginInits :: "(plugin_id \<times> register_init) list"
  moduleInits :: "(plugin_id \<times> (module_id \<times> register_init) list) list"

text \<open>
  The loop over \<open>r.extensionPoints\<close>. The table is a field of the initializer, so the
  entries written before a \<open>throw\<close> stay; the function returns the table in both cases.
\<close>

fun add_extensionPoints ::
  "plugin_id \<Rightarrow> (ref \<times> impl) list \<Rightarrow> ext_table \<Rightarrow> ref list \<Rightarrow> error option \<times> ext_table \<times> ref list" where
  "add_extensionPoints p [] eps prov = (None, eps, prov)"
| "add_extensionPoints p ((extRef, extImpl) # rest) eps prov =
     (if eps (ref_id extRef) \<noteq> None then (Some (DuplicateExtensionPoint (ref_id extRef)), eps, prov)
      else add_extensionPoints p rest
             (eps(ref_id extRef \<mapsto> \<lparr>ep_impl = extImpl, ep_pluginId = p\<rparr>))
             (set_add extRef prov))"

fun index_registration :: "registration \<Rightarrow> index \<Rightarrow> error option \<times> index" where
  "index_registration (PluginRegistration p exts i) ix =
     (case add_extensionPoints p exts (ix_extensionPoints ix) [] of
        (Some e, eps, prov) \<Rightarrow> (Some e, ix\<lparr>ix_extensionPoints := eps\<rparr>)
      | (None, eps, prov) \<Rightarrow>
          if map_of (pluginInits ix) p \<noteq> None
          then (Some (DuplicatePluginRegistration p), ix\<lparr>ix_extensionPoints := eps\<rparr>)
          else (None, ix\<lparr>ix_extensionPoints := eps,
                  pluginInits := pluginInits ix @
                    [(p, \<lparr>consumes = new_Set (map snd (deps i)), provides = prov, init = i\<rparr>)]\<rparr>))"
| "index_registration (ModuleRegistration p m exts i) ix =
     (case add_extensionPoints p exts (ix_extensionPoints ix) [] of
        (Some e, eps, prov) \<Rightarrow> (Some e, ix\<lparr>ix_extensionPoints := eps\<rparr>)
      | (None, eps, prov) \<Rightarrow>
          (let modules = (case map_of (moduleInits ix) p of None \<Rightarrow> [] | Some ms \<Rightarrow> ms) in
           if map_of modules m \<noteq> None
           then (Some (DuplicateModuleRegistration m p),
                 ix\<lparr>ix_extensionPoints := eps,
                    moduleInits := AList.update p modules (moduleInits ix)\<rparr>)
           else (None, ix\<lparr>ix_extensionPoints := eps,
                   moduleInits := AList.update p
                     (modules @
                        [(m, \<lparr>consumes = new_Set (map snd (deps i)), provides = prov, init = i\<rparr>)])
                     (moduleInits ix)\<rparr>)))"

fun index_registrations :: "registration list \<Rightarrow> index \<Rightarrow> error option \<times> index" where
  "index_registrations [] ix = (None, ix)"
| "index_registrations (r # rs) ix =
     (case index_registration r ix of
        (Some e, ix') \<Rightarrow> (Some e, ix')
      | (None, ix') \<Rightarrow> index_registrations rs ix')"

fun index_features :: "feature list \<Rightarrow> index \<Rightarrow> error option \<times> index" where
  "index_features [] ix = (None, ix)"
| "index_features (f # fs) ix =
     (case getRegistrations f of
        None \<Rightarrow> (Some (External ''getRegistrations is not a function''), ix)
      | Some rs \<Rightarrow>
          (case index_registrations rs ix of
             (Some e, ix') \<Rightarrow> (Some e, ix')
           | (None, ix') \<Rightarrow> index_features fs ix'))"

definition allPluginIds :: "index \<Rightarrow> plugin_id list" where
  "allPluginIds ix = new_Set (map fst (pluginInits ix) @ map fst (moduleInits ix))"

section \<open>The dependency graph of the modules of one plugin\<close>

text \<open>A node of \<open>DependencyGraph\<close>; its value is the pair \<open>{moduleId, moduleInit}\<close>.\<close>

record node =
  n_moduleId :: module_id
  n_moduleInit :: register_init
  n_consumes :: "string list"
  n_provides :: "string list"

text \<open>
  The argument of \<open>DependencyGraph.fromIterable\<close> in \<open>#doStart\<close>: one node per module,
  with the relationships reversed.
\<close>

definition module_nodes :: "(module_id \<times> register_init) list \<Rightarrow> node list" where
  "module_nodes modules =
     map (\<lambda>(moduleId, moduleInit).
            \<lparr> n_moduleId = moduleId, n_moduleInit = moduleInit,
              n_consumes = map ref_id (provides moduleInit),
              n_provides = map ref_id (consumes moduleInit) \<rparr>) modules"

text \<open>
  Modelled from the spec: the class \<open>DependencyGraph\<close> (\<open>lib/DependencyGraph\<close>) is not
  part of the sources. An edge \<open>a \<rightarrow> b\<close> is "\<open>a\<close> consumes an id provided by \<open>b\<close>";
  a cycle is a sequence \<open>n\<^sub>0 \<rightarrow> n\<^sub>1 \<rightarrow> \<dots> \<rightarrow> n\<^sub>k = n\<^sub>0\<close>.
\<close>

definition depends_on :: "node \<Rightarrow> node \<Rightarrow> bool" where
  "depends_on a b = list_ex (\<lambda>c. c \<in> set (n_provides b)) (n_consumes a)"

text \<open>
  Modelled from the spec: a walk follows the edges, and a cycle of the graph is a walk of
  at least one edge, through nodes of the graph, that ends where it begins.
\<close>

fun is_walk :: "node list \<Rightarrow> bool" where
  "is_walk [] = True"
| "is_walk [a] = True"
| "is_walk (a # b # rest) = (depends_on a b \<and> is_walk (b # rest))"

definition is_cycle :: "node list \<Rightarrow> node list \<Rightarrow> bool" where
  "is_cycle nodes path =
     (2 \<le> length path \<and> hd path = last path \<and> is_walk path \<and> set path \<subseteq> set nodes)"

text \<open>The first result of a list of searches.\<close>

fun first_some :: "'a option list \<Rightarrow> 'a option" where
  "first_some [] = None"
| "first_some (None # rest) = first_some rest"
| "first_some (Some x # rest) = Some x"

text \<open>
  Modelled from the spec: \<open>detectCircularDependency\<close> returns the node sequence of a
  cycle when there is one. The search follows the edges from each node in turn, along
  walks of at most as many edges as the graph has nodes.
\<close>

fun cycle_search :: "nat \<Rightarrow> node list \<Rightarrow> node \<Rightarrow> node \<Rightarrow> node list option" where
  "cycle_search 0 nodes start cur = None"
| "cycle_search (Suc k) nodes start cur =
     (if depends_on cur start then Some [cur, start]
      else map_option (\<lambda>path. cur # path)
             (first_some (map (\<lambda>nxt. cycle_search k nodes start nxt)
                            (filter (depends_on cur) nodes))))"

text \<open>
  Modelled from the spec: \<open>detectCircularDependency\<close> searches from each node of the
  graph in turn and returns the first cycle found, or nothing.
\<close>

definition detectCircularDependency :: "node list \<Rightarrow> node list option" where
  "detectCircularDependency nodes =
     first_some (map (\<lambda>start. cycle_search (length nodes) nodes start start) nodes)"

text \<open>
  Modelled from the spec: in \<open>parallelTopologicalTraversal\<close> a node becomes ready when
  every node providing any id it consumes has completed; ids nobody provides are
  satisfied; with several providers the consumer waits for all of them.
\<close>

definition ready :: "node list \<Rightarrow> (plugin_id \<times> module_id) list \<Rightarrow> plugin_id \<Rightarrow> node \<Rightarrow> bool" where
  "ready nodes fin p n =
     list_all (\<lambda>n'. depends_on n n' \<longrightarrow> (p, n_moduleId n') \<in> set fin) nodes"

section \<open>Initializing all plugins in parallel\<close>

text \<open>
  What stays fixed while the plugins are initialized: the extension-point table and the
  registration index (read-only once indexing is over), the service holder, and the
  result of \<open>startup()\<close> of each per-plugin lifecycle service.
\<close>

record ctx =
  c_extensionPoints :: ext_table
  c_holder :: holder
  c_pluginInits :: "(plugin_id \<times> register_init) list"
  c_moduleInits :: "(plugin_id \<times> (module_id \<times> register_init) list) list"
  c_pluginStartup :: "plugin_id \<Rightarrow> error option"

text \<open>
  An operation in flight is a promise some task awaits: the dependency resolution of a
  module or plugin, its \<open>init.func\<close>, the lookup of the per-plugin lifecycle service, or
  that service's \<open>startup()\<close>.
\<close>

datatype op =
    ModDeps plugin_id node
  | ModInit plugin_id node "(string \<times> impl) list"
  | PlugDeps plugin_id register_init
  | PlugInit plugin_id register_init "(string \<times> impl) list"
  | PlugLifecycle plugin_id
  | PlugStartup plugin_id

text \<open>
  The state of \<open>Promise.all(allPluginIds.map(...))\<close>: the operations in flight, the
  module nodes not yet visited, the modules whose visit completed, the plugins whose
  traversal failed, the per-plugin promises in the order in which they settled (with the
  rejection reason, if any), and the events so far.
\<close>

record sched_state =
  inflight :: "op list"
  waiting :: "(plugin_id \<times> node) list"
  finished :: "(plugin_id \<times> module_id) list"
  failed :: "plugin_id list"
  settled :: "(plugin_id \<times> error option) list"
  trace :: "event list"

definition nodes_of :: "ctx \<Rightarrow> plugin_id \<Rightarrow> node list" where
  "nodes_of c p = (case map_of (c_moduleInits c) p of None \<Rightarrow> [] | Some ms \<Rightarrow> module_nodes ms)"

text \<open>
  "Once all modules have been initialized, we can initialize the plugin itself"; the
  plugin may not exist, and then the task goes on to the lifecycle service.
\<close>

definition plugin_stage :: "ctx \<Rightarrow> plugin_id \<Rightarrow> op list" where
  "plugin_stage c p =
     (case map_of (c_pluginInits c) p of
        Some pluginInit \<Rightarrow> [PlugDeps p pluginInit]
      | None \<Rightarrow> [PlugLifecycle p])"

definition reject :: "plugin_id \<Rightarrow> error \<Rightarrow> sched_state \<Rightarrow> sched_state" where
  "reject p e s = s\<lparr>settled := settled s @ [(p, Some e)]\<rparr>"

text \<open>
  Modelled from the spec: the traversal fails fast with the error of the first visit
  that fails; visits already in flight run on, and their results are discarded.
\<close>

definition fail_visit :: "plugin_id \<Rightarrow> error \<Rightarrow> sched_state \<Rightarrow> sched_state" where
  "fail_visit p e s =
     (if p \<in> set (failed s) then s
      else s\<lparr>failed := failed s @ [p], settled := settled s @ [(p, Some e)]\<rparr>)"

text \<open>
  Modelled from the spec: the traversal completes only when every node has completed.
\<close>

definition all_finished :: "ctx \<Rightarrow> sched_state \<Rightarrow> plugin_id \<Rightarrow> bool" where
  "all_finished c s p = list_all (\<lambda>n. (p, n_moduleId n) \<in> set (finished s)) (nodes_of c p)"

text \<open>
  Modelled from the spec: every waiting node of the plugin that is ready is visited at
  once (its visit begins with \<open>#getInitDeps\<close>); when the traversal has completed, the
  task goes on with the plugin itself.
\<close>

definition advance :: "ctx \<Rightarrow> plugin_id \<Rightarrow> sched_state \<Rightarrow> sched_state" where
  "advance c p s =
     (let nodes = nodes_of c p;
          isready = (\<lambda>(q, n). q = p \<and> ready nodes (finished s) p n);
          s1 = s\<lparr>waiting := filter (\<lambda>w. \<not> isready w) (waiting s),
                 inflight := inflight s @ map (\<lambda>(q, n). ModDeps q n) (filter isready (waiting s))\<rparr>
      in if all_finished c s p
         then s1\<lparr>inflight := inflight s1 @ plugin_stage c p\<rparr>
         else s1)"

definition getPluginLifecycleImpl :: "holder \<Rightarrow> plugin_id \<Rightarrow> error + impl" where
  "getPluginLifecycleImpl h pluginId =
     (case get h lifecycle_ref pluginId of
        Inl e \<Rightarrow> Inl e
      | Inr (Some BackendPluginLifecycleImpl) \<Rightarrow> Inr BackendPluginLifecycleImpl
      | Inr _ \<Rightarrow> Inl UnexpectedPluginLifecycle)"

text \<open>
  The continuation of the task that awaited the operation, run when the operation
  settles, up to the next \<open>await\<close>.
\<close>

fun complete :: "ctx \<Rightarrow> op \<Rightarrow> sched_state \<Rightarrow> sched_state" where
  "complete c (ModDeps p n) s =
     (case getInitDeps (c_extensionPoints c) (c_holder c) (deps (init (n_moduleInit n))) p of
        Inl e \<Rightarrow> fail_visit p e s
      | Inr moduleDeps \<Rightarrow>
          s\<lparr>inflight := inflight s @ [ModInit p n moduleDeps],
            trace := trace s @ [ModuleInitInvoked p (n_moduleId n)]\<rparr>)"
| "complete c (ModInit p n moduleDeps) s =
     (case func (init (n_moduleInit n)) moduleDeps of
        Some cause \<Rightarrow>
          fail_visit p (ModuleStartupFailed (n_moduleId n) p cause)
            (s\<lparr>trace := trace s @ [ModuleInitRejected p (n_moduleId n)]\<rparr>)
      | None \<Rightarrow>
          (let s1 = s\<lparr>trace := trace s @ [ModuleInitCompleted p (n_moduleId n)],
                      finished := finished s @ [(p, n_moduleId n)]\<rparr>
           in if p \<in> set (failed s) then s1 else advance c p s1))"
| "complete c (PlugDeps p pluginInit) s =
     (case getInitDeps (c_extensionPoints c) (c_holder c) (deps (init pluginInit)) p of
        Inl e \<Rightarrow> reject p e s
      | Inr pluginDeps \<Rightarrow>
          s\<lparr>inflight := inflight s @ [PlugInit p pluginInit pluginDeps],
            trace := trace s @ [PluginInitInvoked p]\<rparr>)"
| "complete c (PlugInit p pluginInit pluginDeps) s =
     (case func (init pluginInit) pluginDeps of
        Some cause \<Rightarrow>
          reject p (PluginStartupFailed p cause) (s\<lparr>trace := trace s @ [PluginInitRejected p]\<rparr>)
      | None \<Rightarrow>
          s\<lparr>inflight := inflight s @ [PlugLifecycle p],
            trace := trace s @ [PluginInitCompleted p]\<rparr>)"
| "complete c (PlugLifecycle p) s =
     (case getPluginLifecycleImpl (c_holder c) p of
        Inl e \<Rightarrow> reject p e s
      | Inr lifecycleService \<Rightarrow>
          s\<lparr>inflight := inflight s @ [PlugStartup p],
            trace := trace s @ [PluginStartupInvoked p]\<rparr>)"
| "complete c (PlugStartup p) s =
     (case c_pluginStartup c p of
        Some e \<Rightarrow> reject p e (s\<lparr>trace := trace s @ [PluginStartupRejected p]\<rparr>)
      | None \<Rightarrow>
          s\<lparr>settled := settled s @ [(p, None)],
            trace := trace s @ [PluginStartupCompleted p]\<rparr>)"

text \<open>
  One step of the event loop: the operation in flight chosen by \<open>k\<close> settles and its
  continuation runs. Which operation settles next is not in the initializer's hands, so
  the choice is a parameter.
\<close>

definition step :: "ctx \<Rightarrow> nat \<Rightarrow> sched_state \<Rightarrow> sched_state" where
  "step c k s =
     (if inflight s = [] then s
      else let i = k mod length (inflight s) in
           complete c (inflight s ! i)
             (s\<lparr>inflight := take i (inflight s) @ drop (Suc i) (inflight s)\<rparr>))"

fun run :: "ctx \<Rightarrow> nat list \<Rightarrow> sched_state \<Rightarrow> sched_state" where
  "run c [] s = s"
| "run c (k # ks) s = run c ks (step c k s)"

fun drain :: "nat \<Rightarrow> ctx \<Rightarrow> sched_state \<Rightarrow> sched_state" where
  "drain 0 c s = s"
| "drain (Suc n) c s = (if inflight s = [] then s else drain n c (step c 0 s))"

fun op_weight :: "op \<Rightarrow> nat" where
  "op_weight (ModDeps p n) = 6"
| "op_weight (ModInit p n d) = 5"
| "op_weight (PlugDeps p i) = 4"
| "op_weight (PlugInit p i d) = 3"
| "op_weight (PlugLifecycle p) = 2"
| "op_weight (PlugStartup p) = 1"

definition weight :: "sched_state \<Rightarrow> nat" where
  "weight s = 7 * length (waiting s) + sum_list (map op_weight (inflight s))"

text \<open>
  The synchronous start of the task of one plugin, up to its first \<open>await\<close>: the graph
  is built and checked for a cycle, and the traversal begins.
\<close>

definition start_plugin :: "ctx \<Rightarrow> plugin_id \<Rightarrow> sched_state \<Rightarrow> sched_state" where
  "start_plugin c p s =
     (case detectCircularDependency (nodes_of c p) of
        Some circular \<Rightarrow> reject p (CircularModuleDependency p (map n_moduleId circular)) s
      | None \<Rightarrow> advance c p (s\<lparr>waiting := waiting s @ map (Pair p) (nodes_of c p)\<rparr>))"

definition empty_sched :: sched_state where
  "empty_sched = \<lparr> inflight = [], waiting = [], finished = [], failed = [], settled = [], trace = [] \<rparr>"

text \<open>
  The tasks are started in the order of \<open>allPluginIds\<close>; then the operations settle in
  the order the schedule gives, and, when the schedule is used up, oldest first, until
  none is in flight.
\<close>

definition initPlugins :: "ctx \<Rightarrow> plugin_id list \<Rightarrow> nat list \<Rightarrow> sched_state" where
  "initPlugins c pluginIds sched =
     (let s1 = run c sched (fold (start_plugin c) pluginIds empty_sched)
      in drain (weight s1) c s1)"

text \<open>
  \<open>Promise.all\<close>: rejected with the reason of the first promise that was rejected,
  fulfilled when every promise is fulfilled.
\<close>

definition promise_all :: "plugin_id list \<Rightarrow> sched_state \<Rightarrow> outcome" where
  "promise_all pluginIds s =
     (case List.map_filter snd (settled s) of
        e # es \<Rightarrow> Rejected e
      | [] \<Rightarrow> if list_all (\<lambda>p. (p, None) \<in> set (settled s)) pluginIds then Fulfilled else Pending)"

section \<open>start and stop\<close>

text \<open>
  The collaborators of the initializer that are not part of the sources, as parameters:
  \<open>ServiceRegistry.create\<close>, the \<open>getBackendFeatures()\<close> of a feature-discovery
  service, the results of the startup hooks, and whether \<open>process.env.NODE_ENV\<close> is
  \<open>'test'\<close>.
\<close>

record env =
  ServiceRegistry_create :: "feature list \<Rightarrow> holder"
  getBackendFeatures :: "impl \<Rightarrow> error + feature list"
  pluginStartup :: "plugin_id \<Rightarrow> error option"
  rootStartup :: "error option"
  test_mode :: bool

definition getRootLifecycleImpl :: "backend \<Rightarrow> error + impl" where
  "getRootLifecycleImpl b =
     (case serviceHolder b of
        None \<Rightarrow> Inl ServiceHolderUndefined
      | Some h \<Rightarrow>
          (case get h rootLifecycle_ref ''root'' of
             Inl e \<Rightarrow> Inl e
           | Inr (Some BackendLifecycleImpl) \<Rightarrow> Inr BackendLifecycleImpl
           | Inr _ \<Rightarrow> Inl UnexpectedRootLifecycle))"

text \<open>
  Modelled from the spec: the class \<open>BackendLifecycleImpl\<close> is not part of the sources.
  \<open>startup()\<close> and \<open>shutdown()\<close> each run once, a second call is rejected with
  \<open>LifecycleAlreadyInvoked\<close>; the first failure of a startup hook is reported; errors
  of shutdown hooks are logged, not thrown.
\<close>

definition root_startup :: "env \<Rightarrow> backend \<Rightarrow> error option \<times> backend" where
  "root_startup en b =
     (let b1 = b\<lparr>events := events b @ [RootStartupInvoked]\<rparr> in
      if rootStartupInvoked b then (Some LifecycleAlreadyInvoked, b1)
      else case rootStartup en of
             Some e \<Rightarrow> (Some e, b1\<lparr>rootStartupInvoked := True, events := events b1 @ [RootStartupRejected]\<rparr>)
           | None \<Rightarrow> (None, b1\<lparr>rootStartupInvoked := True, events := events b1 @ [RootStartupCompleted]\<rparr>))"

text \<open>
  Modelled from the spec: \<open>shutdown()\<close> of the root lifecycle service runs once; a
  second call is rejected; errors of its hooks are logged, not thrown.
\<close>

definition root_shutdown :: "backend \<Rightarrow> error option \<times> backend" where
  "root_shutdown b =
     (let b1 = b\<lparr>events := events b @ [RootShutdownInvoked]\<rparr> in
      if rootShutdownInvoked b then (Some LifecycleAlreadyInvoked, b1)
      else (None, b1\<lparr>rootShutdownInvoked := True\<rparr>))"

text \<open>"Initialize all root scoped services".\<close>

fun init_root_services :: "holder \<Rightarrow> ref list \<Rightarrow> error option" where
  "init_root_services h [] = None"
| "init_root_services h (r # rs) =
     (if ref_scope r = RootScope
      then (case get h r ''root'' of Inl e \<Rightarrow> Some e | Inr v \<Rightarrow> init_root_services h rs)
      else init_root_services h rs)"

text \<open>The features of the optional feature-discovery service are added first.\<close>

definition discover :: "env \<Rightarrow> holder \<Rightarrow> backend \<Rightarrow> error option \<times> backend" where
  "discover en h b =
     (case get h featureDiscoveryServiceRef ''root'' of
        Inl e \<Rightarrow> (Some e, b)
      | Inr None \<Rightarrow> (None, b)
      | Inr (Some featureDiscovery) \<Rightarrow>
          (case getBackendFeatures en featureDiscovery of
             Inl e \<Rightarrow> (Some e, b)
           | Inr fs \<Rightarrow> addFeatures fs b))"

definition make_ctx :: "env \<Rightarrow> holder \<Rightarrow> index \<Rightarrow> ctx" where
  "make_ctx en h ix =
     \<lparr> c_extensionPoints = ix_extensionPoints ix, c_holder = h,
       c_pluginInits = pluginInits ix, c_moduleInits = moduleInits ix,
       c_pluginStartup = pluginStartup en \<rparr>"

text \<open>
  The end of \<open>#doStart\<close>, once every plugin is initialized: the root lifecycle
  \<open>startup()\<close>, and outside test mode the two handlers for uncaught errors.
\<close>

definition finish_start :: "env \<Rightarrow> holder \<Rightarrow> backend \<Rightarrow> outcome \<times> backend" where
  "finish_start en h b =
     (case getRootLifecycleImpl b of
        Inl e \<Rightarrow> (Rejected e, b)
      | Inr lifecycleService \<Rightarrow>
          (case root_startup en b of
             (Some e, b1) \<Rightarrow> (Rejected e, b1)
           | (None, b1) \<Rightarrow>
               if \<not> test_mode en then
                 (case get h rootLogger_ref ''root'' of
                    Inl e \<Rightarrow> (Rejected e, b1)
                  | Inr rootLogger \<Rightarrow>
                      (Fulfilled,
                       b1\<lparr>listeners := listeners b1 @
                            [(''unhandledRejection'', LogUnhandledRejection),
                             (''uncaughtException'', LogUncaughtException)]\<rparr>))
               else (Fulfilled, b1)))"

text \<open>
  The first, sequential part of \<open>#doStart\<close>: the features of the discovery service,
  the root-scoped services, and the index of the registrations, which also fills the
  extension-point table.
\<close>

definition prepare :: "env \<Rightarrow> holder \<Rightarrow> backend \<Rightarrow> (error + index) \<times> backend" where
  "prepare en h b =
     (case discover en h b of
        (Some e, b2) \<Rightarrow> (Inl e, b2)
      | (None, b2) \<Rightarrow>
          (case init_root_services h (getServiceRefs h) of
             Some e \<Rightarrow> (Inl e, b2)
           | None \<Rightarrow>
               (case index_features (features b2)
                       \<lparr> ix_extensionPoints = extensionPoints b2,
                         pluginInits = [], moduleInits = [] \<rparr> of
                  (Some e, ix) \<Rightarrow> (Inl e, b2\<lparr>extensionPoints := ix_extensionPoints ix\<rparr>)
                | (None, ix) \<Rightarrow> (Inr ix, b2\<lparr>extensionPoints := ix_extensionPoints ix\<rparr>))))"

text \<open>
  \<open>#doStart\<close>. The events of the plugin tasks are those of the whole of
  \<open>Promise.all\<close>: tasks still in flight when the first one is rejected run on, and their
  events are part of what is observed.
\<close>

definition registry :: "env \<Rightarrow> backend \<Rightarrow> holder" where
  "registry en b = ServiceRegistry_create en (defaultApiFactories b @ providedServiceFactories b)"

definition doStart :: "env \<Rightarrow> nat list \<Rightarrow> backend \<Rightarrow> outcome \<times> backend" where
  "doStart en sched b =
     (let h = registry en b in
      case prepare en h (b\<lparr>serviceHolder := Some h\<rparr>) of
        (Inl e, b2) \<Rightarrow> (Rejected e, b2)
      | (Inr ix, b2) \<Rightarrow>
          (let s = initPlugins (make_ctx en h ix) (allPluginIds ix) sched;
               b3 = b2\<lparr>events := events b2 @ trace s\<rparr>
           in case promise_all (allPluginIds ix) s of
                Rejected e \<Rightarrow> (Rejected e, b3)
              | Pending \<Rightarrow> (Pending, b3)
              | Fulfilled \<Rightarrow> finish_start en h b3))"

definition start :: "env \<Rightarrow> nat list \<Rightarrow> backend \<Rightarrow> outcome \<times> backend" where
  "start en sched b =
     (if startPromise b \<noteq> None then (Rejected AlreadyStarted, b)
      else
        (let b1 = b\<lparr>listeners := listeners b @
                      [(''SIGTERM'', ExitHandler), (''SIGINT'', ExitHandler),
                       (''beforeExit'', ExitHandler)]\<rparr>;
             (r, b2) = doStart en sched b1
         in (r, b2\<lparr>startPromise := Some r\<rparr>)))"

text \<open>
  \<open>stop\<close> awaits the start promise, whatever its result, and then shuts the root
  lifecycle down; while the start promise is pending, so is \<open>stop\<close>.
\<close>

definition stop :: "backend \<Rightarrow> outcome \<times> backend" where
  "stop b =
     (case startPromise b of
        None \<Rightarrow> (Fulfilled, b)
      | Some Pending \<Rightarrow> (Pending, b)
      | Some r \<Rightarrow>
          (case getRootLifecycleImpl b of
             Inl e \<Rightarrow> (Rejected e, b)
           | Inr lifecycleService \<Rightarrow>
               (case root_shutdown b of
                  (Some e, b1) \<Rightarrow> (Rejected e, b1)
                | (None, b1) \<Rightarrow> (Fulfilled, b1))))"

text \<open>
  \<open>process.removeListener\<close> removes at most one instance of the listener, the one added
  last.
\<close>

definition removeListener ::
  "string \<Rightarrow> handler \<Rightarrow> (string \<times> handler) list \<Rightarrow> (string \<times> handler) list" where
  "removeListener ev listener ls = rev (remove1 (ev, listener) (rev ls))"

text \<open>The \<open>exitHandler\<close> closure of \<open>start\<close>: it removes itself, stops, and exits.\<close>

definition exitHandler :: "backend \<Rightarrow> backend" where
  "exitHandler b =
     (let b1 = b\<lparr>listeners :=
                   removeListener ''beforeExit'' ExitHandler
                     (removeListener ''SIGINT'' ExitHandler
                        (removeListener ''SIGTERM'' ExitHandler (listeners b)))\<rparr>
      in case stop b1 of
           (Fulfilled, b2) \<Rightarrow> b2\<lparr>exitCode := Some 0\<rparr>
         | (Rejected e, b2) \<Rightarrow> b2\<lparr>exitCode := Some 1\<rparr>
         | (Pending, b2) \<Rightarrow> b2)"

section \<open>Example configurations\<close>

text \<open>
  Modelled from the spec: the class \<open>ServiceRegistry\<close> is not part of the sources. This
  registry is constructed from a flat list of factories and resolves exactly the ids in
  that list; the implementation of a core service is the class the initializer expects.
\<close>

definition impl_for :: "string \<Rightarrow> impl" where
  "impl_for i =
     (if i = ''core.rootLifecycle'' then BackendLifecycleImpl
      else if i = ''core.lifecycle'' then BackendPluginLifecycleImpl
      else if i = ''core.rootLogger'' then RootLoggerImpl
      else if i = ''core.featureDiscovery'' then FeatureDiscoveryImpl
      else OtherImpl 0)"

definition example_registry :: "feature list \<Rightarrow> holder" where
  "example_registry factories =
     \<lparr> get = (\<lambda>r pluginId.
               if ref_id r \<in> set (map ref_id (List.map_filter service factories))
               then Inr (Some (impl_for (ref_id r))) else Inr None),
       getServiceRefs = List.map_filter service factories \<rparr>"

definition service_factory :: "ref \<Rightarrow> feature" where
  "service_factory r =
     \<lparr> type_tag = ''@backstage/BackendFeature'', service = Some r, version = ''v1'',
       getRegistrations = None \<rparr>"

definition backend_feature :: "registration list \<Rightarrow> feature" where
  "backend_feature rs =
     \<lparr> type_tag = ''@backstage/BackendFeature'', service = None, version = ''v1'',
       getRegistrations = Some rs \<rparr>"

definition default_factories :: "feature list" where
  "default_factories =
     [service_factory rootLogger_ref, service_factory rootLifecycle_ref,
      service_factory lifecycle_ref]"

definition example_env :: env where
  "example_env =
     \<lparr> ServiceRegistry_create = example_registry, getBackendFeatures = (\<lambda>i. Inr []),
       pluginStartup = (\<lambda>p. None), rootStartup = None, test_mode = False \<rparr>"

definition test_env :: env where
  "test_env = example_env\<lparr>test_mode := True\<rparr>"

text \<open>An init whose \<open>func\<close> resolves, and one whose \<open>func\<close> rejects.\<close>

definition ok_init :: "(string \<times> ref) list \<Rightarrow> feature_init" where
  "ok_init ds = \<lparr> deps = ds, func = (\<lambda>d. None) \<rparr>"

definition failing_init :: "(string \<times> ref) list \<Rightarrow> feature_init" where
  "failing_init ds = \<lparr> deps = ds, func = (\<lambda>d. Some (External ''boom'')) \<rparr>"

definition with_features :: "feature list \<Rightarrow> backend \<Rightarrow> backend" where
  "with_features fs b = b\<lparr>features := fs\<rparr>"

section \<open>Notions used in the statements\<close>

text \<open>
  A ref is missing when it is neither in the extension-point table nor resolved by the
  service holder; it is foreign when the table records it for another plugin; its
  lookup throws when it goes to the service holder and the holder rejects.
\<close>

definition is_missing :: "ext_table \<Rightarrow> holder \<Rightarrow> plugin_id \<Rightarrow> ref \<Rightarrow> bool" where
  "is_missing eps h p r = (eps (ref_id r) = None \<and> get h r p = Inr None)"

definition foreign :: "ext_table \<Rightarrow> plugin_id \<Rightarrow> ref \<Rightarrow> bool" where
  "foreign eps p r = (case eps (ref_id r) of None \<Rightarrow> False | Some ep \<Rightarrow> ep_pluginId ep \<noteq> p)"

definition throws :: "ext_table \<Rightarrow> holder \<Rightarrow> plugin_id \<Rightarrow> ref \<Rightarrow> bool" where
  "throws eps h p r = (eps (ref_id r) = None \<and> (case get h r p of Inl e \<Rightarrow> True | Inr v \<Rightarrow> False))"

definition missing_refs :: "ext_table \<Rightarrow> holder \<Rightarrow> plugin_id \<Rightarrow> (string \<times> ref) list \<Rightarrow> ref list" where
  "missing_refs eps h p ds = new_Set (filter (is_missing eps h p) (map snd ds))"

text \<open>
  \<open>precedes a b tr\<close>: in \<open>tr\<close>, \<open>b\<close> does not occur before the first occurrence of
  \<open>a\<close>; every \<open>b\<close> has an \<open>a\<close> before it.
\<close>

fun precedes :: "'a \<Rightarrow> 'a \<Rightarrow> 'a list \<Rightarrow> bool" where
  "precedes a b [] = True"
| "precedes a b (e # es) = (if e = a then True else if e = b then False else precedes a b es)"

text \<open>
  The registration index that \<open>start\<close> builds for a backend not yet started (\<open>None\<close>
  when \<open>start\<close> fails before the index is complete), the context in which the plugins
  are then initialized, and the events observed during \<open>start\<close>.
\<close>

definition start_index :: "env \<Rightarrow> backend \<Rightarrow> index option" where
  "start_index en b =
     (case fst (prepare en (registry en b) b) of Inl e \<Rightarrow> None | Inr ix \<Rightarrow> Some ix)"

definition start_ctx :: "env \<Rightarrow> backend \<Rightarrow> index \<Rightarrow> ctx" where
  "start_ctx en b ix = make_ctx en (registry en b) ix"

definition observed :: "env \<Rightarrow> nat list \<Rightarrow> backend \<Rightarrow> event list" where
  "observed en sched b = drop (length (events b)) (events (snd (start en sched b)))"

section \<open>The protocol of the plugin tasks\<close>

text \<open>
  When an event may follow the events \<open>tr\<close>: the \<open>init.func\<close> of a module is invoked
  after its dependencies were resolved and after every module it waits for has
  completed; that of a plugin after its dependencies were resolved and every module of
  the plugin has completed; the per-plugin \<open>startup()\<close> after the modules and the
  plugin, if there is one; a completion or rejection after the invocation. The plugin
  tasks never produce an event of the root lifecycle.
\<close>

fun enabled :: "ctx \<Rightarrow> event list \<Rightarrow> event \<Rightarrow> bool" where
  "enabled c tr (ModuleInitInvoked p m) =
     (\<exists>n \<in> set (nodes_of c p). n_moduleId n = m \<and>
        (\<exists>d. getInitDeps (c_extensionPoints c) (c_holder c) (deps (init (n_moduleInit n))) p = Inr d) \<and>
        (\<forall>n' \<in> set (nodes_of c p). depends_on n n' \<longrightarrow>
            ModuleInitCompleted p (n_moduleId n') \<in> set tr))"
| "enabled c tr (ModuleInitCompleted p m) = (ModuleInitInvoked p m \<in> set tr)"
| "enabled c tr (ModuleInitRejected p m) = (ModuleInitInvoked p m \<in> set tr)"
| "enabled c tr (PluginInitInvoked p) =
     (\<exists>pluginInit. map_of (c_pluginInits c) p = Some pluginInit \<and>
        (\<exists>d. getInitDeps (c_extensionPoints c) (c_holder c) (deps (init pluginInit)) p = Inr d) \<and>
        (\<forall>n \<in> set (nodes_of c p). ModuleInitCompleted p (n_moduleId n) \<in> set tr))"
| "enabled c tr (PluginInitCompleted p) = (PluginInitInvoked p \<in> set tr)"
| "enabled c tr (PluginInitRejected p) = (PluginInitInvoked p \<in> set tr)"
| "enabled c tr (PluginStartupInvoked p) =
     ((\<forall>n \<in> set (nodes_of c p). ModuleInitCompleted p (n_moduleId n) \<in> set tr) \<and>
      (map_of (c_pluginInits c) p = None \<or> PluginInitCompleted p \<in> set tr))"
| "enabled c tr (PluginStartupCompleted p) = (PluginStartupInvoked p \<in> set tr)"
| "enabled c tr (PluginStartupRejected p) = (PluginStartupInvoked p \<in> set tr)"
| "enabled c tr RootStartupInvoked = False"
| "enabled c tr RootStartupCompleted = False"
| "enabled c tr RootStartupRejected = False"
| "enabled c tr RootShutdownInvoked = False"

text \<open>A trace is well-formed when each of its events may follow the events before it.\<close>

definition wf_trace :: "ctx \<Rightarrow> event list \<Rightarrow> bool" where
  "wf_trace c tr = (\<forall>pre e post. tr = pre @ e # post \<longrightarrow> enabled c pre e)"

text \<open>
  What holds while an operation is in flight, and the invariant of the scheduler state.
\<close>

fun op_ok :: "ctx \<Rightarrow> sched_state \<Rightarrow> op \<Rightarrow> bool" where
  "op_ok c s (ModDeps p n) =
     (n \<in> set (nodes_of c p) \<and>
      (\<forall>n' \<in> set (nodes_of c p). depends_on n n' \<longrightarrow> (p, n_moduleId n') \<in> set (finished s)))"
| "op_ok c s (ModInit p n d) =
     (ModuleInitInvoked p (n_moduleId n) \<in> set (trace s) \<and> n \<in> set (nodes_of c p) \<and>
      getInitDeps (c_extensionPoints c) (c_holder c) (deps (init (n_moduleInit n))) p = Inr d)"
| "op_ok c s (PlugDeps p pluginInit) =
     (map_of (c_pluginInits c) p = Some pluginInit \<and> all_finished c s p)"
| "op_ok c s (PlugInit p pluginInit d) =
     (PluginInitInvoked p \<in> set (trace s) \<and> all_finished c s p \<and>
      map_of (c_pluginInits c) p = Some pluginInit \<and>
      getInitDeps (c_extensionPoints c) (c_holder c) (deps (init pluginInit)) p = Inr d)"
| "op_ok c s (PlugLifecycle p) =
     (all_finished c s p \<and>
      (map_of (c_pluginInits c) p = None \<or> PluginInitCompleted p \<in> set (trace s)))"
| "op_ok c s (PlugStartup p) = (PluginStartupInvoked p \<in> set (trace s))"

definition inv :: "ctx \<Rightarrow> sched_state \<Rightarrow> bool" where
  "inv c s =
     ((\<forall>op \<in> set (inflight s). op_ok c s op) \<and>
      (\<forall>(p, n) \<in> set (waiting s). n \<in> set (nodes_of c p)) \<and>
      (\<forall>(p, m) \<in> set (finished s). ModuleInitCompleted p m \<in> set (trace s)) \<and>
      (\<forall>p. (p, None) \<in> set (settled s) \<longrightarrow> PluginStartupCompleted p \<in> set (trace s)) \<and>
      wf_trace c (trace s))"

text \<open>
  In an index, the module ids of one plugin are distinct; and the rejection with which
  the task of a plugin begins when its module graph has a cycle.
\<close>

definition modules_distinct :: "index \<Rightarrow> bool" where
  "modules_distinct ix = (\<forall>p ms. map_of (moduleInits ix) p = Some ms \<longrightarrow> distinct (map fst ms))"

definition cyc_entry :: "ctx \<Rightarrow> plugin_id \<Rightarrow> (plugin_id \<times> error option) list" where
  "cyc_entry c p =
     (case detectCircularDependency (nodes_of c p) of
        Some circular \<Rightarrow> [(p, Some (CircularModuleDependency p (map n_moduleId circular)))]
      | None \<Rightarrow> [])"

text \<open>
  For the proof that every plugin promise settles: the plugin and the node of an
  operation, the part of the state that belongs to one plugin, and the invariant that
  a plugin whose promise has not settled still has every node of its graph waiting, in
  flight or finished, with no ready node left waiting.
\<close>

fun op_plugin :: "op \<Rightarrow> plugin_id" where
  "op_plugin (ModDeps p n) = p"
| "op_plugin (ModInit p n d) = p"
| "op_plugin (PlugDeps p i) = p"
| "op_plugin (PlugInit p i d) = p"
| "op_plugin (PlugLifecycle p) = p"
| "op_plugin (PlugStartup p) = p"

fun op_node :: "op \<Rightarrow> node option" where
  "op_node (ModDeps p n) = Some n"
| "op_node (ModInit p n d) = Some n"
| "op_node (PlugDeps p i) = None"
| "op_node (PlugInit p i d) = None"
| "op_node (PlugLifecycle p) = None"
| "op_node (PlugStartup p) = None"

definition footprint ::
  "sched_state \<Rightarrow> plugin_id \<Rightarrow> node set \<times> op set \<times> module_id set \<times> bool" where
  "footprint s p =
     ({n. (p, n) \<in> set (waiting s)}, {op \<in> set (inflight s). op_plugin op = p},
      {m. (p, m) \<in> set (finished s)}, p \<in> set (failed s))"

definition conserved :: "ctx \<Rightarrow> sched_state \<Rightarrow> plugin_id \<Rightarrow> bool" where
  "conserved c s p =
     (\<forall>n \<in> set (nodes_of c p).
        (p, n) \<in> set (waiting s) \<or>
        (\<exists>op \<in> set (inflight s). op_plugin op = p \<and> op_node op = Some n) \<or>
        (p, n_moduleId n) \<in> set (finished s))"

definition live :: "ctx \<Rightarrow> sched_state \<Rightarrow> plugin_id \<Rightarrow> bool" where
  "live c s p =
     (p \<in> fst ` set (settled s) \<or>
      (conserved c s p \<and>
       (all_finished c s p \<longrightarrow> (\<exists>op \<in> set (inflight s). op_plugin op = p \<and> op_node op = None)) \<and>
       (\<forall>n. (p, n) \<in> set (waiting s) \<longrightarrow> \<not> ready (nodes_of c p) (finished s) p n) \<and>
       detectCircularDependency (nodes_of c p) = None \<and> p \<notin> set (failed s)))"

text \<open>
  The errors with which the task of a plugin can be rejected: that of a cycle among
  its modules, of the dependency resolution or the \<open>init.func\<close> of one of its modules
  or of the plugin itself, of the lookup of its lifecycle service, and of the
  \<open>startup()\<close> of that service.
\<close>

definition init_errors :: "ctx \<Rightarrow> plugin_id \<Rightarrow> register_init \<Rightarrow> (error \<Rightarrow> error) \<Rightarrow> error list" where
  "init_errors c p ri wrap =
     (case getInitDeps (c_extensionPoints c) (c_holder c) (deps (init ri)) p of
        Inl e \<Rightarrow> [e]
      | Inr d \<Rightarrow> (case func (init ri) d of Some cause \<Rightarrow> [wrap cause] | None \<Rightarrow> []))"

definition task_errors :: "ctx \<Rightarrow> plugin_id \<Rightarrow> error list" where
  "task_errors c p =
     (case detectCircularDependency (nodes_of c p) of
        Some circular \<Rightarrow> [CircularModuleDependency p (map n_moduleId circular)]
      | None \<Rightarrow> []) @
     concat (map (\<lambda>n. init_errors c p (n_moduleInit n) (ModuleStartupFailed (n_moduleId n) p))
                 (nodes_of c p)) @
     (case map_of (c_pluginInits c) p of
        Some pluginInit \<Rightarrow> init_errors c p pluginInit (PluginStartupFailed p)
      | None \<Rightarrow> []) @
     (case getPluginLifecycleImpl (c_holder c) p of Inl e \<Rightarrow> [e] | Inr lifecycleService \<Rightarrow> []) @
     (case c_pluginStartup c p of Some e \<Rightarrow> [e] | None \<Rightarrow> [])"

definition start_errors :: "env \<Rightarrow> backend \<Rightarrow> index \<Rightarrow> error list" where
  "start_errors en b ix = concat (map (task_errors (start_ctx en b ix)) (allPluginIds ix))"

definition errors_ok :: "ctx \<Rightarrow> sched_state \<Rightarrow> bool" where
  "errors_ok c s = (\<forall>(p, r) \<in> set (settled s). \<forall>e. r = Some e \<longrightarrow> e \<in> set (task_errors c p))"

text \<open>
  Every operation, every waiting node and every settled promise belongs to one of the
  plugins \<open>P\<close>.
\<close>

definition within :: "plugin_id set \<Rightarrow> sched_state \<Rightarrow> bool" where
  "within P s =
     (op_plugin ` set (inflight s) \<union> fst ` set (waiting s) \<union> fst ` set (settled s) \<subseteq> P)"

section \<open>Further example configurations\<close>

definition table_q :: ext_table where
  "table_q = [''ext.q'' \<mapsto> \<lparr>ep_impl = OtherImpl 1, ep_pluginId = ''q''\<rparr>]"

definition failing_module_backend :: backend where
  "failing_module_backend =
     with_features [backend_feature [ModuleRegistration ''p'' ''m'' [] (failing_init [])]]
       (BackendInitializer default_factories)"

definition discovery_env :: "feature list \<Rightarrow> env" where
  "discovery_env fs = example_env\<lparr>getBackendFeatures := (\<lambda>i. Inr fs)\<rparr>"

definition discovery_backend :: backend where
  "discovery_backend =
     BackendInitializer (default_factories @ [service_factory featureDiscoveryServiceRef])"

definition two_plugin_backend :: backend where
  "two_plugin_backend =
     with_features
       [backend_feature [PluginRegistration ''A'' [] (ok_init [])],
        backend_feature [PluginRegistration ''B'' [] (ok_init [])],
        backend_feature [ModuleRegistration ''B'' ''B1'' [(ExtensionPoint 11 ''Bx'', OtherImpl 1)] (ok_init [])],
        backend_feature [ModuleRegistration ''B'' ''B2'' [] (ok_init [(''x'', ExtensionPoint 11 ''Bx'')])]]
       (BackendInitializer default_factories)"

definition module_only_backend :: backend where
  "module_only_backend =
     with_features [backend_feature [ModuleRegistration ''P'' ''M'' [] (ok_init [])]]
       (BackendInitializer default_factories)"

definition two_module_only_backend :: backend where
  "two_module_only_backend =
     with_features
       [backend_feature [ModuleRegistration ''P'' ''M1'' [(ExtensionPoint 12 ''X'', OtherImpl 1)] (ok_init [])],
        backend_feature [ModuleRegistration ''P'' ''M2'' [] (ok_init [(''x'', ExtensionPoint 12 ''X'')])],
        backend_feature [PluginRegistration ''Q'' [] (failing_init [])]]
       (BackendInitializer default_factories)"


definition foreign_module_backend :: backend where
  "foreign_module_backend =
     with_features
       [backend_feature [PluginRegistration ''q'' [(ExtensionPoint 10 ''ext.q'', OtherImpl 1)] (ok_init [])],
        backend_feature [ModuleRegistration ''p'' ''m'' [] (ok_init [(''ext'', ExtensionPoint 10 ''ext.q'')])]]
       (BackendInitializer default_factories)"

definition own_module_backend :: backend where
  "own_module_backend =
     with_features
       [backend_feature [PluginRegistration ''q'' [(ExtensionPoint 10 ''ext.q'', OtherImpl 1)] (ok_init [])],
        backend_feature [ModuleRegistration ''q'' ''m'' [] (ok_init [(''ext'', ExtensionPoint 10 ''ext.q'')])]]
       (BackendInitializer default_factories)"

text \<open>A registry in which the factory of the service \<open>svc.broken\<close> throws.\<close>

definition broken_registry :: "feature list \<Rightarrow> holder" where
  "broken_registry factories =
     (example_registry factories)
       \<lparr> get := (\<lambda>r pluginId.
                   if ref_id r = ''svc.broken'' then Inl (External ''factory failed'')
                   else get (example_registry factories) r pluginId) \<rparr>"

definition broken_env :: env where
  "broken_env = example_env\<lparr>ServiceRegistry_create := broken_registry\<rparr>"

definition broken_dep_backend :: backend where
  "broken_dep_backend =
     with_features
       [backend_feature [PluginRegistration ''q'' [(ExtensionPoint 10 ''ext.q'', OtherImpl 1)] (ok_init [])],
        backend_feature [ModuleRegistration ''p'' ''m'' []
           (ok_init [(''svc'', ServiceRef 20 ''svc.broken'' PluginScope),
                     (''ext'', ExtensionPoint 10 ''ext.q'')])]]
       (BackendInitializer default_factories)"

definition foreign_plugin_backend :: backend where
  "foreign_plugin_backend =
     with_features
       [backend_feature [PluginRegistration ''q'' [(ExtensionPoint 10 ''ext.q'', OtherImpl 1)] (ok_init [])],
        backend_feature [PluginRegistration ''p'' [] (ok_init [(''ext'', ExtensionPoint 10 ''ext.q'')])]]
       (BackendInitializer default_factories)"

definition failing_module_foreign_plugin_backend :: backend where
  "failing_module_foreign_plugin_backend =
     with_features
       [backend_feature [PluginRegistration ''q'' [(ExtensionPoint 10 ''ext.q'', OtherImpl 1)] (ok_init [])],
        backend_feature [PluginRegistration ''p'' [] (ok_init [(''ext'', ExtensionPoint 10 ''ext.q'')])],
        backend_feature [ModuleRegistration ''p'' ''m'' [] (failing_init [])]]
       (BackendInitializer default_factories)"

section \<open>What start leaves unchanged\<close>

lemma addFeature_frame:
  "addFeature f b = Inr b' \<Longrightarrow>
     listeners b' = listeners b \<and> serviceHolder b' = serviceHolder b \<and> events b' = events b \<and>
     startPromise b' = startPromise b \<and> rootShutdownInvoked b' = rootShutdownInvoked b \<and>
     rootStartupInvoked b' = rootStartupInvoked b \<and> extensionPoints b' = extensionPoints b \<and>
     defaultApiFactories b' = defaultApiFactories b \<and> exitCode b' = exitCode b"
  by (auto simp: addFeature_def split: if_splits option.splits)

lemma addFeatures_frame:
  "addFeatures fs b = (r, b') \<Longrightarrow>
     listeners b' = listeners b \<and> serviceHolder b' = serviceHolder b \<and> events b' = events b \<and>
     startPromise b' = startPromise b \<and> rootShutdownInvoked b' = rootShutdownInvoked b \<and>
     rootStartupInvoked b' = rootStartupInvoked b \<and> extensionPoints b' = extensionPoints b \<and>
     defaultApiFactories b' = defaultApiFactories b \<and> exitCode b' = exitCode b"
proof (induction fs arbitrary: b)
  case Nil
  then show ?case by simp
next
  case (Cons f fs)
  show ?case
  proof (cases "addFeature f b")
    case (Inl e)
    with Cons.prems show ?thesis by simp
  next
    case (Inr b1)
    with Cons.prems have "addFeatures fs b1 = (r, b')" by simp
    from Cons.IH[OF this] addFeature_frame[OF Inr] show ?thesis by simp
  qed
qed

lemma discover_frame:
  "discover en h b = (r, b') \<Longrightarrow>
     listeners b' = listeners b \<and> serviceHolder b' = serviceHolder b \<and> events b' = events b \<and>
     startPromise b' = startPromise b \<and> rootShutdownInvoked b' = rootShutdownInvoked b \<and>
     rootStartupInvoked b' = rootStartupInvoked b \<and> extensionPoints b' = extensionPoints b \<and>
     defaultApiFactories b' = defaultApiFactories b \<and> exitCode b' = exitCode b"
  unfolding discover_def
  by (auto split: sum.splits option.splits dest: addFeatures_frame)

lemma prepare_frame:
  "prepare en h b = (r, b') \<Longrightarrow>
     listeners b' = listeners b \<and> serviceHolder b' = serviceHolder b \<and> events b' = events b \<and>
     startPromise b' = startPromise b \<and> rootShutdownInvoked b' = rootShutdownInvoked b \<and>
     rootStartupInvoked b' = rootStartupInvoked b \<and>
     defaultApiFactories b' = defaultApiFactories b \<and> exitCode b' = exitCode b"
  unfolding prepare_def
  by (auto split: prod.splits sum.splits option.splits dest: discover_frame)


lemma finish_start_frame:
  "finish_start en h b = (r, b') \<Longrightarrow>
     serviceHolder b' = serviceHolder b \<and> startPromise b' = startPromise b \<and>
     rootShutdownInvoked b' = rootShutdownInvoked b \<and> exitCode b' = exitCode b \<and>
     listeners b' = listeners b @
       (if r = Fulfilled \<and> \<not> test_mode en
        then [(''unhandledRejection'', LogUnhandledRejection),
              (''uncaughtException'', LogUncaughtException)]
        else [])"
  unfolding finish_start_def root_startup_def
  by (auto simp: Let_def split: sum.splits option.splits prod.splits if_splits)

lemma doStart_frame:
  "doStart en sched b = (r, b') \<Longrightarrow>
     serviceHolder b' = Some (registry en b) \<and> startPromise b' = startPromise b \<and>
     rootShutdownInvoked b' = rootShutdownInvoked b \<and> exitCode b' = exitCode b \<and>
     listeners b' = listeners b @
       (if r = Fulfilled \<and> \<not> test_mode en
        then [(''unhandledRejection'', LogUnhandledRejection),
              (''uncaughtException'', LogUncaughtException)]
        else [])"
  unfolding doStart_def
  by (auto simp: Let_def split: sum.splits prod.splits outcome.splits
           dest!: prepare_frame finish_start_frame)

lemma start_frame:
  assumes "startPromise b = None" and "start en sched b = (r, b')"
  shows "serviceHolder b' = Some (registry en b)" and "startPromise b' = Some r"
    and "rootShutdownInvoked b' = rootShutdownInvoked b"
    and "listeners b' = listeners b @
       [(''SIGTERM'', ExitHandler), (''SIGINT'', ExitHandler), (''beforeExit'', ExitHandler)] @
       (if r = Fulfilled \<and> \<not> test_mode en
        then [(''unhandledRejection'', LogUnhandledRejection),
              (''uncaughtException'', LogUncaughtException)]
        else [])"
  using assms unfolding start_def
  by (auto simp: Let_def registry_def split: prod.splits dest!: doStart_frame)

section \<open>Properties of the dependency resolution\<close>

lemma set_fold_set_add: "set (fold set_add xs acc) = set xs \<union> set acc"
  by (induction xs arbitrary: acc) (auto simp: set_add_def)

lemma distinct_fold_set_add: "distinct acc \<Longrightarrow> distinct (fold set_add xs acc)"
  by (induction xs arbitrary: acc) (auto simp: set_add_def)

lemma set_new_Set: "set (new_Set xs) = set xs"
  by (simp add: new_Set_def set_fold_set_add)

lemma distinct_new_Set: "distinct (new_Set xs)"
  by (simp add: new_Set_def distinct_fold_set_add)

lemma loop_foreign_fails:
  "(n, r) \<in> set ds \<Longrightarrow> foreign eps p r \<Longrightarrow> \<exists>e. getInitDeps_loop eps h p ds res ms = Inl e"
proof (induction ds arbitrary: res ms)
  case Nil
  then show ?case by simp
next
  case (Cons d ds)
  obtain n' r' where d: "d = (n', r')" by (cases d)
  show ?case
  proof (cases "(n, r) = d")
    case True
    with Cons.prems d show ?thesis by (auto simp: foreign_def split: option.splits)
  next
    case False
    with Cons.prems have "(n, r) \<in> set ds" by simp
    from Cons.IH[OF this Cons.prems(2)] show ?thesis
      unfolding d by (simp split: option.splits sum.splits)
  qed
qed

lemma loop_first_foreign:
  assumes "\<forall>(n', r') \<in> set pre. \<not> foreign eps p r' \<and> \<not> throws eps h p r'"
    and "eps (ref_id r) = Some ep" and "ep_pluginId ep \<noteq> p"
  shows "getInitDeps_loop eps h p (pre @ (n, r) # post) res ms =
           Inl (ExtensionPointOwnershipViolation (ep_pluginId ep) p)"
  using assms(1)
proof (induction pre arbitrary: res ms)
  case Nil
  with assms(2,3) show ?case by simp
next
  case (Cons d pre)
  obtain n' r' where d: "d = (n', r')" by (cases d)
  from Cons.prems have rest: "\<forall>(n', r') \<in> set pre. \<not> foreign eps p r' \<and> \<not> throws eps h p r'"
    and here: "\<not> foreign eps p r'" "\<not> throws eps h p r'"
    by (auto simp: d)
  from here show ?case
    unfolding d using Cons.IH[OF rest]
    by (simp add: foreign_def throws_def split: option.splits sum.splits)
qed

lemma loop_complete:
  assumes "\<forall>(n, r) \<in> set ds. \<not> foreign eps p r \<and> \<not> throws eps h p r"
  shows "\<exists>res'. getInitDeps_loop eps h p ds res ms =
           Inr (res', fold set_add (filter (is_missing eps h p) (map snd ds)) ms)"
  using assms
proof (induction ds arbitrary: res ms)
  case Nil
  then show ?case by simp
next
  case (Cons d ds)
  obtain n r where d: "d = (n, r)" by (cases d)
  from Cons.prems have rest: "\<forall>(n, r) \<in> set ds. \<not> foreign eps p r \<and> \<not> throws eps h p r"
    and here: "\<not> foreign eps p r" "\<not> throws eps h p r"
    by (auto simp: d)
  from here show ?case
    unfolding d using Cons.IH[OF rest]
    by (auto simp: foreign_def throws_def is_missing_def split: option.splits sum.splits)
qed

lemma loop_keeps_binding:
  "getInitDeps_loop eps h p ds res ms = Inr (res', ms') \<Longrightarrow> n \<notin> fst ` set ds \<Longrightarrow>
   map_of res' n = map_of res n"
proof (induction ds arbitrary: res ms)
  case Nil
  then show ?case by simp
next
  case (Cons d ds)
  obtain n' r' where d: "d = (n', r')" by (cases d)
  from Cons.prems(2) have ne: "n \<noteq> n'" and notin: "n \<notin> fst ` set ds" by (auto simp: d)
  from Cons.prems(1) show ?case
    unfolding d using Cons.IH[OF _ notin] ne
    by (auto simp: update_conv' split: option.splits sum.splits if_splits)
qed

lemma loop_binds_own:
  "getInitDeps_loop eps h p ds res ms = Inr (res', ms') \<Longrightarrow> distinct (map fst ds) \<Longrightarrow>
   (n, r) \<in> set ds \<Longrightarrow> eps (ref_id r) = Some ep \<Longrightarrow> map_of res' n = Some (ep_impl ep)"
proof (induction ds arbitrary: res ms)
  case Nil
  then show ?case by simp
next
  case (Cons d ds)
  obtain n' r' where d: "d = (n', r')" by (cases d)
  show ?case
  proof (cases "(n, r) = d")
    case True
    with d have eq: "n' = n" "r' = r" by simp_all
    from Cons.prems(2) have notin: "n \<notin> fst ` set ds" by (simp add: d eq)
    from Cons.prems(1) Cons.prems(4)
    have "getInitDeps_loop eps h p ds (AList.update n (ep_impl ep) res) ms = Inr (res', ms')"
      by (simp add: d eq split: if_splits)
    from loop_keeps_binding[OF this notin] show ?thesis by (simp add: update_conv')
  next
    case False
    with Cons.prems(3) have mem: "(n, r) \<in> set ds" by simp
    from Cons.prems(2) have dist: "distinct (map fst ds)" by simp
    from Cons.prems(1) obtain res1 ms1 where
      "getInitDeps_loop eps h p ds res1 ms1 = Inr (res', ms')"
      by (auto simp: d split: option.splits sum.splits if_splits)
    from Cons.IH[OF this dist mem Cons.prems(4)] show ?thesis .
  qed
qed

section \<open>The invariant of the plugin tasks\<close>

lemma wf_trace_Nil: "wf_trace c []"
  by (simp add: wf_trace_def)

lemma wf_trace_snoc: "wf_trace c (tr @ [e]) \<longleftrightarrow> wf_trace c tr \<and> enabled c tr e"
proof
  assume wf: "wf_trace c (tr @ [e])"
  have "enabled c tr e" using wf unfolding wf_trace_def by blast
  moreover have "wf_trace c tr"
    unfolding wf_trace_def
  proof (intro allI impI)
    fix pre x post assume "tr = pre @ x # post"
    then have "tr @ [e] = pre @ x # (post @ [e])" by simp
    with wf show "enabled c pre x" unfolding wf_trace_def by blast
  qed
  ultimately show "wf_trace c tr \<and> enabled c tr e" by simp
next
  assume a: "wf_trace c tr \<and> enabled c tr e"
  show "wf_trace c (tr @ [e])"
    unfolding wf_trace_def
  proof (intro allI impI)
    fix pre x post assume eq: "tr @ [e] = pre @ x # post"
    show "enabled c pre x"
    proof (cases post rule: rev_cases)
      case Nil
      with eq have "pre = tr" "x = e" by simp_all
      with a show ?thesis by simp
    next
      case (snoc post' y)
      with eq have "tr = pre @ x # post'" by simp
      with a show ?thesis unfolding wf_trace_def by blast
    qed
  qed
qed

lemma op_ok_mono:
  "op_ok c s op \<Longrightarrow> set (finished s) \<subseteq> set (finished s') \<Longrightarrow> set (trace s) \<subseteq> set (trace s') \<Longrightarrow>
   op_ok c s' op"
  by (cases op) (auto simp: all_finished_def list_all_iff)

lemma inv_empty: "inv c empty_sched"
  by (simp add: inv_def empty_sched_def wf_trace_Nil)

lemma inv_reject: "inv c s \<Longrightarrow> inv c (reject p e s)"
  unfolding inv_def reject_def
  by (auto intro: op_ok_mono)

lemma inv_fail_visit: "inv c s \<Longrightarrow> inv c (fail_visit p e s)"
  unfolding inv_def fail_visit_def
  by (auto intro: op_ok_mono)


lemma advance_fields [simp]:
  "finished (advance c p s) = finished s" "trace (advance c p s) = trace s"
  "settled (advance c p s) = settled s" "failed (advance c p s) = failed s"
  by (simp_all add: advance_def Let_def)

lemma advance_waiting: "set (waiting (advance c p s)) \<subseteq> set (waiting s)"
  by (auto simp: advance_def Let_def)

lemma advance_inflight:
  "op \<in> set (inflight (advance c p s)) \<Longrightarrow>
     op \<in> set (inflight s) \<or>
     (\<exists>n. op = ModDeps p n \<and> (p, n) \<in> set (waiting s) \<and> ready (nodes_of c p) (finished s) p n) \<or>
     (all_finished c s p \<and> op \<in> set (plugin_stage c p))"
  by (auto simp: advance_def Let_def split: if_splits)

lemma plugin_stage_ok:
  "all_finished c s p \<Longrightarrow> op \<in> set (plugin_stage c p) \<Longrightarrow> op_ok c s op"
  by (auto simp: plugin_stage_def split: option.splits)

lemma ready_ok:
  "ready (nodes_of c p) (finished s) p n \<Longrightarrow> n \<in> set (nodes_of c p) \<Longrightarrow> op_ok c s (ModDeps p n)"
  by (auto simp: ready_def list_all_iff)

lemma inv_advance:
  assumes "inv c s"
  shows "inv c (advance c p s)"
proof -
  have ops: "op_ok c (advance c p s) op" if "op \<in> set (inflight (advance c p s))" for op
  proof -
    have same: "op_ok c s op \<Longrightarrow> op_ok c (advance c p s) op"
      using op_ok_mono[of c s op "advance c p s"] by simp
    from advance_inflight[OF that] show ?thesis
    proof (elim disjE exE conjE)
      assume "op \<in> set (inflight s)"
      with assms have "op_ok c s op" by (simp add: inv_def)
      then show ?thesis by (rule same)
    next
      fix n assume op: "op = ModDeps p n" and w: "(p, n) \<in> set (waiting s)"
        and r: "ready (nodes_of c p) (finished s) p n"
      from assms w have "n \<in> set (nodes_of c p)" by (auto simp: inv_def)
      from ready_ok[OF r this] have "op_ok c s op" by (simp add: op)
      then show ?thesis by (rule same)
    next
      assume "all_finished c s p" "op \<in> set (plugin_stage c p)"
      then have "op_ok c s op" by (rule plugin_stage_ok)
      then show ?thesis by (rule same)
    qed
  qed
  have wait: "\<forall>(q, n) \<in> set (waiting (advance c p s)). n \<in> set (nodes_of c q)"
    using assms advance_waiting[of c p s] by (auto simp: inv_def)
  from ops wait assms show ?thesis by (simp add: inv_def)
qed

lemma enabled_mono: "enabled c tr e \<Longrightarrow> set tr \<subseteq> set tr' \<Longrightarrow> enabled c tr' e"
  by (cases e; simp; blast)

lemma inv_event:
  assumes "inv c s" and "enabled c (trace s) e"
  shows "inv c (s\<lparr>trace := trace s @ [e]\<rparr>)"
  using assms unfolding inv_def
  by (auto simp: wf_trace_snoc intro: op_ok_mono)

lemma inv_add_op:
  assumes "inv c s" and "op_ok c s op"
  shows "inv c (s\<lparr>inflight := inflight s @ [op]\<rparr>)"
  using assms unfolding inv_def
  by (auto intro: op_ok_mono)

lemma inv_finish:
  assumes "inv c s" and "ModuleInitCompleted p m \<in> set (trace s)"
  shows "inv c (s\<lparr>finished := finished s @ [(p, m)]\<rparr>)"
  using assms unfolding inv_def
  by (auto intro: op_ok_mono)

lemma inv_settle:
  assumes "inv c s" and "PluginStartupCompleted p \<in> set (trace s)"
  shows "inv c (s\<lparr>settled := settled s @ [(p, None)]\<rparr>)"
  using assms unfolding inv_def
  by (auto intro: op_ok_mono)

lemma inv_remove:
  assumes "inv c s" and "inflight s = pre @ op # post"
  shows "inv c (s\<lparr>inflight := pre @ post\<rparr>)" and "op_ok c (s\<lparr>inflight := pre @ post\<rparr>) op"
proof -
  from assms have ok: "op_ok c s op" by (simp add: inv_def)
  show "op_ok c (s\<lparr>inflight := pre @ post\<rparr>) op"
    using op_ok_mono[OF ok, of "s\<lparr>inflight := pre @ post\<rparr>"] by simp
  show "inv c (s\<lparr>inflight := pre @ post\<rparr>)"
    using assms unfolding inv_def by (auto intro: op_ok_mono)
qed

lemma all_finished_completed:
  "inv c s \<Longrightarrow> all_finished c s p \<Longrightarrow> n \<in> set (nodes_of c p) \<Longrightarrow>
   ModuleInitCompleted p (n_moduleId n) \<in> set (trace s)"
  by (auto simp: inv_def all_finished_def list_all_iff)

lemma swap_inflight_trace:
  "(s::sched_state)\<lparr>inflight := i, trace := t\<rparr> = s\<lparr>trace := t, inflight := i\<rparr>"
  by (cases s) simp

lemma swap_settled_trace:
  "(s::sched_state)\<lparr>settled := i, trace := t\<rparr> = s\<lparr>trace := t, settled := i\<rparr>"
  by (cases s) simp

lemma inv_complete:
  assumes "inv c s" and "op_ok c s op"
  shows "inv c (complete c op s)"
proof (cases op)
  case (ModDeps p n)
  show ?thesis
  proof (cases "getInitDeps (c_extensionPoints c) (c_holder c) (deps (init (n_moduleInit n))) p")
    case (Inl e)
    with ModDeps assms show ?thesis by (simp add: inv_fail_visit)
  next
    case (Inr d)
    from assms ModDeps have nin: "n \<in> set (nodes_of c p)"
      and dn: "\<forall>n' \<in> set (nodes_of c p). depends_on n n' \<longrightarrow> (p, n_moduleId n') \<in> set (finished s)"
      by simp_all
    from assms(1) have fin: "\<forall>(p, m) \<in> set (finished s). ModuleInitCompleted p m \<in> set (trace s)"
      by (simp add: inv_def)
    have "\<forall>n' \<in> set (nodes_of c p). depends_on n n' \<longrightarrow>
            ModuleInitCompleted p (n_moduleId n') \<in> set (trace s)"
      using dn fin by blast
    with nin Inr have en: "enabled c (trace s) (ModuleInitInvoked p (n_moduleId n))"
      by (simp only: enabled.simps) blast
    from inv_event[OF assms(1) en]
    have i1: "inv c (s\<lparr>trace := trace s @ [ModuleInitInvoked p (n_moduleId n)]\<rparr>)" .
    from inv_add_op[OF i1, of "ModInit p n d"] ModDeps Inr nin show ?thesis
      by (simp add: swap_inflight_trace)
  qed
next
  case (ModInit p n d)
  from assms ModInit have invoked: "ModuleInitInvoked p (n_moduleId n) \<in> set (trace s)" by simp
  show ?thesis
  proof (cases "func (init (n_moduleInit n)) d")
    case (Some cause)
    from inv_event[OF assms(1), of "ModuleInitRejected p (n_moduleId n)"] invoked
    have "inv c (s\<lparr>trace := trace s @ [ModuleInitRejected p (n_moduleId n)]\<rparr>)" by simp
    from inv_fail_visit[OF this] ModInit Some show ?thesis by simp
  next
    case None
    from inv_event[OF assms(1), of "ModuleInitCompleted p (n_moduleId n)"] invoked
    have "inv c (s\<lparr>trace := trace s @ [ModuleInitCompleted p (n_moduleId n)]\<rparr>)" by simp
    from inv_finish[OF this, of p "n_moduleId n"]
    have i2: "inv c (s\<lparr>trace := trace s @ [ModuleInitCompleted p (n_moduleId n)],
                       finished := finished s @ [(p, n_moduleId n)]\<rparr>)" by simp
    from i2 inv_advance[OF i2, of p] ModInit None show ?thesis by (simp add: Let_def)
  qed
next
  case (PlugDeps p pluginInit)
  show ?thesis
  proof (cases "getInitDeps (c_extensionPoints c) (c_holder c) (deps (init pluginInit)) p")
    case (Inl e)
    with PlugDeps assms show ?thesis by (simp add: inv_reject)
  next
    case (Inr d)
    from assms PlugDeps have af: "all_finished c s p" by simp
    from assms PlugDeps Inr all_finished_completed[OF assms(1) af]
    have en: "enabled c (trace s) (PluginInitInvoked p)" by simp
    from inv_event[OF assms(1) en]
    have i1: "inv c (s\<lparr>trace := trace s @ [PluginInitInvoked p]\<rparr>)" .
    have "op_ok c (s\<lparr>trace := trace s @ [PluginInitInvoked p]\<rparr>) (PlugInit p pluginInit d)"
      using af assms(2) PlugDeps Inr by (simp add: all_finished_def)
    from inv_add_op[OF i1 this] PlugDeps Inr show ?thesis
      by (simp add: swap_inflight_trace)
  qed
next
  case (PlugInit p pluginInit d)
  from assms PlugInit have invoked: "PluginInitInvoked p \<in> set (trace s)"
    and af: "all_finished c s p" by simp_all
  show ?thesis
  proof (cases "func (init pluginInit) d")
    case (Some cause)
    from inv_event[OF assms(1), of "PluginInitRejected p"] invoked
    have "inv c (s\<lparr>trace := trace s @ [PluginInitRejected p]\<rparr>)" by simp
    from inv_reject[OF this] PlugInit Some show ?thesis by simp
  next
    case None
    from inv_event[OF assms(1), of "PluginInitCompleted p"] invoked
    have i1: "inv c (s\<lparr>trace := trace s @ [PluginInitCompleted p]\<rparr>)" by simp
    have "op_ok c (s\<lparr>trace := trace s @ [PluginInitCompleted p]\<rparr>) (PlugLifecycle p)"
      using af by (simp add: all_finished_def)
    from inv_add_op[OF i1 this] PlugInit None show ?thesis
      by (simp add: swap_inflight_trace)
  qed
next
  case (PlugLifecycle p)
  from assms PlugLifecycle have af: "all_finished c s p"
    and pl: "map_of (c_pluginInits c) p = None \<or> PluginInitCompleted p \<in> set (trace s)"
    by simp_all
  show ?thesis
  proof (cases "getPluginLifecycleImpl (c_holder c) p")
    case (Inl e)
    with PlugLifecycle assms show ?thesis by (simp add: inv_reject)
  next
    case (Inr i)
    from pl all_finished_completed[OF assms(1) af]
    have en: "enabled c (trace s) (PluginStartupInvoked p)" by simp
    from inv_event[OF assms(1) en]
    have i1: "inv c (s\<lparr>trace := trace s @ [PluginStartupInvoked p]\<rparr>)" .
    from inv_add_op[OF i1, of "PlugStartup p"] PlugLifecycle Inr show ?thesis
      by (simp add: swap_inflight_trace)
  qed
next
  case (PlugStartup p)
  from assms PlugStartup have invoked: "PluginStartupInvoked p \<in> set (trace s)" by simp
  show ?thesis
  proof (cases "c_pluginStartup c p")
    case (Some e)
    from inv_event[OF assms(1), of "PluginStartupRejected p"] invoked
    have "inv c (s\<lparr>trace := trace s @ [PluginStartupRejected p]\<rparr>)" by simp
    from inv_reject[OF this] PlugStartup Some show ?thesis by simp
  next
    case None
    from inv_event[OF assms(1), of "PluginStartupCompleted p"] invoked
    have "inv c (s\<lparr>trace := trace s @ [PluginStartupCompleted p]\<rparr>)" by simp
    from inv_settle[OF this, of p] PlugStartup None show ?thesis
      by (simp add: swap_settled_trace)
  qed
qed

lemma step_cases:
  assumes "inflight s \<noteq> []"
  obtains pre op post where "inflight s = pre @ op # post"
    and "step c k s = complete c op (s\<lparr>inflight := pre @ post\<rparr>)"
proof -
  let ?i = "k mod length (inflight s)"
  from assms have lt: "?i < length (inflight s)" by simp
  have "inflight s = take ?i (inflight s) @ inflight s ! ?i # drop (Suc ?i) (inflight s)"
    using lt by (simp add: id_take_nth_drop)
  moreover have "step c k s = complete c (inflight s ! ?i)
      (s\<lparr>inflight := take ?i (inflight s) @ drop (Suc ?i) (inflight s)\<rparr>)"
    using assms by (simp add: step_def Let_def)
  ultimately show ?thesis using that by blast
qed

lemma inv_step: "inv c s \<Longrightarrow> inv c (step c k s)"
proof (cases "inflight s = []")
  case True
  assume "inv c s"
  with True show ?thesis by (simp add: step_def)
next
  case False
  assume i: "inv c s"
  from False obtain pre op post where eq: "inflight s = pre @ op # post"
    and st: "step c k s = complete c op (s\<lparr>inflight := pre @ post\<rparr>)"
    by (rule step_cases)
  from inv_complete[OF inv_remove[OF i eq]] st show ?thesis by simp
qed

lemma inv_run: "inv c s \<Longrightarrow> inv c (run c ks s)"
  by (induction ks arbitrary: s) (simp_all add: inv_step)

lemma inv_drain: "inv c s \<Longrightarrow> inv c (drain n c s)"
  by (induction n arbitrary: s) (simp_all add: inv_step)

lemma inv_start_plugin: "inv c s \<Longrightarrow> inv c (start_plugin c p s)"
proof -
  assume i: "inv c s"
  have "inv c (s\<lparr>waiting := waiting s @ map (Pair p) (nodes_of c p)\<rparr>)"
    using i unfolding inv_def by (auto intro: op_ok_mono)
  from inv_advance[OF this] inv_reject[OF i] show ?thesis
    by (simp add: start_plugin_def split: option.splits)
qed

lemma inv_fold_start: "inv c s \<Longrightarrow> inv c (fold (start_plugin c) ps s)"
  by (induction ps arbitrary: s) (simp_all add: inv_start_plugin)

lemma inv_initPlugins: "inv c (initPlugins c ps sched)"
  by (simp add: initPlugins_def Let_def inv_drain inv_run inv_fold_start inv_empty)

section \<open>The events observed during start\<close>

lemma addFeature_upd:
  "addFeature f (b\<lparr>listeners := l, serviceHolder := sh\<rparr>) =
     map_sum id (\<lambda>b'. b'\<lparr>listeners := l, serviceHolder := sh\<rparr>) (addFeature f b)"
  by (simp add: addFeature_def split: option.splits)

lemma addFeatures_upd:
  "addFeatures fs (b\<lparr>listeners := l, serviceHolder := sh\<rparr>) =
     (fst (addFeatures fs b), (snd (addFeatures fs b))\<lparr>listeners := l, serviceHolder := sh\<rparr>)"
proof (induction fs arbitrary: b)
  case Nil
  show ?case by simp
next
  case (Cons f fs)
  show ?case
  proof (cases "addFeature f b")
    case (Inl e)
    then show ?thesis by (simp add: addFeature_upd)
  next
    case (Inr b')
    then show ?thesis by (simp add: addFeature_upd Cons.IH)
  qed
qed

lemma discover_upd:
  "discover en h (b\<lparr>listeners := l, serviceHolder := sh\<rparr>) =
     (fst (discover en h b), (snd (discover en h b))\<lparr>listeners := l, serviceHolder := sh\<rparr>)"
  by (simp add: discover_def addFeatures_upd split: sum.splits option.splits)

lemma prepare_upd:
  "fst (prepare en h (b\<lparr>listeners := l, serviceHolder := sh\<rparr>)) = fst (prepare en h b)"
proof -
  obtain r b2 where d: "discover en h b = (r, b2)" by (cases "discover en h b")
  then have d': "discover en h (b\<lparr>listeners := l, serviceHolder := sh\<rparr>) =
                   (r, b2\<lparr>listeners := l, serviceHolder := sh\<rparr>)"
    by (simp add: discover_upd)
  show ?thesis
    unfolding prepare_def d d'
    by (simp split: option.splits prod.splits)
qed

lemma prepare_events:
  "events (snd (prepare en h b)) = events b"
  using prepare_frame[of en h b "fst (prepare en h b)" "snd (prepare en h b)"] by simp

lemma finish_start_events:
  "\<exists>rs. events (snd (finish_start en h b)) = events b @ rs \<and>
        set rs \<subseteq> {RootStartupInvoked, RootStartupCompleted, RootStartupRejected}"
  unfolding finish_start_def root_startup_def
  by (auto simp: Let_def split: sum.splits option.splits prod.splits if_splits)

lemma start_observed:
  assumes "startPromise b = None" and "start_index en b = Some ix"
  shows "\<exists>rs. observed en sched b =
            trace (initPlugins (start_ctx en b ix) (allPluginIds ix) sched) @ rs \<and>
          set rs \<subseteq> {RootStartupInvoked, RootStartupCompleted, RootStartupRejected} \<and>
          (rs \<noteq> [] \<or> fst (start en sched b) = Fulfilled \<longrightarrow>
             promise_all (allPluginIds ix)
               (initPlugins (start_ctx en b ix) (allPluginIds ix) sched) = Fulfilled)"
proof -
  let ?h = "registry en b"
  let ?l = "listeners b @
     [(''SIGTERM'', ExitHandler), (''SIGINT'', ExitHandler), (''beforeExit'', ExitHandler)]"
  let ?b1 = "b\<lparr>listeners := ?l\<rparr>"
  let ?b2 = "b\<lparr>listeners := ?l, serviceHolder := Some ?h\<rparr>"
  let ?s = "initPlugins (start_ctx en b ix) (allPluginIds ix) sched"
  obtain r b3 where pr: "prepare en ?h ?b2 = (r, b3)" by (cases "prepare en ?h ?b2")
  from assms(2) have "fst (prepare en ?h b) = Inr ix"
    by (simp add: start_index_def split: sum.splits)
  with prepare_upd[where en=en and h="?h" and b=b and l="?l" and sh="Some ?h"] pr
  have r: "r = Inr ix" by simp
  from prepare_events[of en ?h ?b2] pr have ev3: "events b3 = events b" by simp
  have h1: "registry en ?b1 = ?h" by (simp add: registry_def)
  let ?b4 = "b3\<lparr>events := events b3 @ trace ?s\<rparr>"
  have ds: "doStart en sched ?b1 =
      (case promise_all (allPluginIds ix) ?s of
         Rejected e \<Rightarrow> (Rejected e, ?b4) | Pending \<Rightarrow> (Pending, ?b4)
       | Fulfilled \<Rightarrow> finish_start en ?h ?b4)"
    using pr r unfolding start_ctx_def by (simp add: doStart_def h1 Let_def)
  have st: "start en sched b = (fst (doStart en sched ?b1), (snd (doStart en sched ?b1))\<lparr>startPromise := Some (fst (doStart en sched ?b1))\<rparr>)"
    using assms(1) by (simp add: start_def Let_def split: prod.splits)
  show ?thesis
  proof (cases "promise_all (allPluginIds ix) ?s")
    case Fulfilled
    from finish_start_events[of en ?h ?b4] obtain rs where
      "events (snd (finish_start en ?h ?b4)) = events ?b4 @ rs"
      "set rs \<subseteq> {RootStartupInvoked, RootStartupCompleted, RootStartupRejected}" by blast
    with Fulfilled ds st ev3 show ?thesis by (simp add: observed_def)
  next
    case (Rejected e)
    with ds st ev3 show ?thesis by (simp add: observed_def)
  next
    case Pending
    with ds st ev3 show ?thesis by (simp add: observed_def)
  qed
qed

lemma precedesI:
  "(\<And>pre post. tr = pre @ b # post \<Longrightarrow> a \<in> set pre) \<Longrightarrow> precedes a b tr"
proof (induction tr)
  case Nil
  show ?case by simp
next
  case (Cons e es)
  show ?case
  proof (cases "e = a")
    case True
    then show ?thesis by simp
  next
    case False
    have neb: "e \<noteq> b"
    proof
      assume "e = b"
      then have "e # es = [] @ b # es" by simp
      from Cons.prems[OF this] show False by simp
    qed
    have "precedes a b es"
    proof (rule Cons.IH)
      fix pre post assume "es = pre @ b # post"
      then have "e # es = (e # pre) @ b # post" by simp
      from Cons.prems[OF this] False show "a \<in> set pre" by auto
    qed
    with False neb show ?thesis by simp
  qed
qed

lemma precedes_absent: "b \<notin> set tr \<Longrightarrow> precedes a b tr"
  by (induction tr) auto

lemma precedes_append: "precedes a b tr \<Longrightarrow> b \<notin> set ys \<or> a \<in> set tr \<Longrightarrow> precedes a b (tr @ ys)"
  by (induction tr) (auto simp: precedes_absent split: if_splits)

lemma wf_trace_precedes:
  assumes "wf_trace c tr" and "\<And>pre. enabled c pre b \<Longrightarrow> a \<in> set pre"
  shows "precedes a b tr"
proof (rule precedesI)
  fix pre post assume "tr = pre @ b # post"
  with assms(1) have "enabled c pre b" unfolding wf_trace_def by blast
  then show "a \<in> set pre" by (rule assms(2))
qed

lemma wf_trace_mem:
  assumes "wf_trace c tr" and "e \<in> set tr"
  shows "\<exists>pre. set pre \<subseteq> set tr \<and> enabled c pre e"
proof -
  from assms(2) obtain pre post where "tr = pre @ e # post" by (auto simp: in_set_conv_decomp)
  with assms(1) have "enabled c pre e" "set pre \<subseteq> set tr" unfolding wf_trace_def by auto
  then show ?thesis by blast
qed

lemma wf_trace_enabled:
  assumes "wf_trace c tr" and "e \<in> set tr"
  shows "enabled c tr e"
proof -
  from wf_trace_mem[OF assms] obtain pre where "set pre \<subseteq> set tr" "enabled c pre e" by blast
  then show ?thesis using enabled_mono by blast
qed

lemma wf_trace_no_root:
  assumes "wf_trace c tr"
  shows "RootStartupInvoked \<notin> set tr" "RootStartupCompleted \<notin> set tr" "RootStartupRejected \<notin> set tr"
  using wf_trace_enabled[OF assms] by fastforce+

lemma wf_initPlugins: "wf_trace c (trace (initPlugins c ps sched))"
  using inv_initPlugins[of c ps sched] by (simp add: inv_def)

lemma observed_started: "startPromise b \<noteq> None \<Longrightarrow> observed en sched b = []"
  by (simp add: observed_def start_def)

lemma promise_all_Fulfilled:
  "promise_all ps s = Fulfilled \<Longrightarrow> p \<in> set ps \<Longrightarrow> (p, None) \<in> set (settled s)"
  by (auto simp: promise_all_def list_all_iff split: list.splits if_splits)

lemma settled_completed:
  "(p, None) \<in> set (settled (initPlugins c ps sched)) \<Longrightarrow>
   PluginStartupCompleted p \<in> set (trace (initPlugins c ps sched))"
  using inv_initPlugins[of c ps sched] by (simp add: inv_def)

lemma module_node_exists:
  "m \<in> fst ` set ms \<Longrightarrow> \<exists>n \<in> set (module_nodes ms). n_moduleId n = m"
  by (force simp: module_nodes_def)

lemma nodes_of_start_ctx:
  "map_of (moduleInits ix) p = Some ms \<Longrightarrow> nodes_of (start_ctx en b ix) p = module_nodes ms"
  by (simp add: nodes_of_def start_ctx_def make_ctx_def)

lemma pluginInits_start_ctx: "c_pluginInits (start_ctx en b ix) = pluginInits ix"
  by (simp add: start_ctx_def make_ctx_def)

lemma mem_allPluginIds:
  "map_of (moduleInits ix) p = Some ms \<or> map_of (pluginInits ix) p = Some pluginInit \<Longrightarrow>
   p \<in> set (allPluginIds ix)"
  by (auto simp: allPluginIds_def set_new_Set dest!: map_of_SomeD intro: rev_image_eqI)


lemma Some_the: "x \<noteq> None \<Longrightarrow> x = Some (the x)"
  by simp

section \<open>The index keeps module ids distinct\<close>

lemma index_registration_distinct:
  assumes "modules_distinct ix"
  shows "modules_distinct (snd (index_registration r ix))"
proof (cases r)
  case (PluginRegistration p exts i)
  with assms show ?thesis
    by (auto simp: modules_distinct_def split: prod.splits option.splits)
next
  case (ModuleRegistration p m exts i)
  let ?modules = "case map_of (moduleInits ix) p of None \<Rightarrow> [] | Some ms \<Rightarrow> ms"
  have d: "distinct (map fst ?modules)"
    using assms by (auto simp: modules_distinct_def split: option.splits)
  have d': "distinct (map fst (?modules @ [(m, v)]))" if "map_of ?modules m = None" for v
    using d that by (simp add: map_of_eq_None_iff)
  have upd: "modules_distinct (ix\<lparr>ix_extensionPoints := eps, moduleInits := AList.update p X (moduleInits ix)\<rparr>)"
    if "distinct (map fst X)" for X eps
    using assms that by (auto simp: modules_distinct_def update_conv')
  have keep: "modules_distinct (ix\<lparr>ix_extensionPoints := eps\<rparr>)" for eps
    using assms by (simp add: modules_distinct_def)
  obtain e eps prov where a: "add_extensionPoints p exts (ix_extensionPoints ix) [] = (e, eps, prov)"
    by (cases "add_extensionPoints p exts (ix_extensionPoints ix) []") auto
  show ?thesis
  proof (cases e)
    case (Some err)
    with a ModuleRegistration keep show ?thesis by simp
  next
    case None
    show ?thesis
    proof (cases "map_of ?modules m = None")
      case True
      with a None ModuleRegistration upd[OF d'[OF True]] show ?thesis by (simp add: Let_def)
    next
      case False
      with a None ModuleRegistration upd[OF d] show ?thesis by (simp add: Let_def)
    qed
  qed
qed

lemma index_registrations_distinct:
  "modules_distinct ix \<Longrightarrow> modules_distinct (snd (index_registrations rs ix))"
proof (induction rs arbitrary: ix)
  case Nil
  then show ?case by simp
next
  case (Cons r rs)
  from index_registration_distinct[OF Cons.prems, of r]
  have 1: "modules_distinct (snd (index_registration r ix))" .
  obtain e ix' where ir: "index_registration r ix = (e, ix')" by (cases "index_registration r ix")
  with 1 have 2: "modules_distinct ix'" by simp
  show ?case
  proof (cases e)
    case None
    with ir Cons.IH[OF 2] show ?thesis by simp
  next
    case (Some err)
    with ir 2 show ?thesis by simp
  qed
qed

lemma index_features_distinct:
  "modules_distinct ix \<Longrightarrow> modules_distinct (snd (index_features fs ix))"
proof (induction fs arbitrary: ix)
  case Nil
  then show ?case by simp
next
  case (Cons f fs)
  show ?case
  proof (cases "getRegistrations f")
    case None
    with Cons.prems show ?thesis by simp
  next
    case (Some rs)
    from index_registrations_distinct[OF Cons.prems, of rs]
    have 1: "modules_distinct (snd (index_registrations rs ix))" .
    obtain e ix' where ir: "index_registrations rs ix = (e, ix')" by (cases "index_registrations rs ix")
    with 1 have 2: "modules_distinct ix'" by simp
    show ?thesis
    proof (cases e)
      case None
      with ir Some Cons.IH[OF 2] show ?thesis by simp
    next
      case (Some err)
      with ir \<open>getRegistrations f = Some rs\<close> 2 show ?thesis by simp
    qed
  qed
qed

lemma start_index_distinct:
  assumes "start_index en b = Some ix"
  shows "modules_distinct ix"
proof -
  let ?h = "registry en b"
  from assms have p: "fst (prepare en ?h b) = Inr ix"
    by (simp add: start_index_def split: sum.splits)
  obtain r b2 where d: "discover en ?h b = (r, b2)" by (cases "discover en ?h b")
  let ?ix0 = "\<lparr> ix_extensionPoints = extensionPoints b2, pluginInits = [], moduleInits = [] \<rparr>"
  have 0: "modules_distinct ?ix0" by (simp add: modules_distinct_def)
  from p d have "snd (index_features (features b2) ?ix0) = ix"
    by (auto simp: prepare_def split: option.splits prod.splits)
  with index_features_distinct[OF 0, of "features b2"] show ?thesis by simp
qed

section \<open>Cycle detection\<close>


lemma first_some_None: "first_some xs = None \<longleftrightarrow> (\<forall>x \<in> set xs. x = None)"
  by (induction xs rule: first_some.induct) auto

lemma is_walk_Cons: "ys \<noteq> [] \<Longrightarrow> is_walk (x # ys) \<longleftrightarrow> depends_on x (hd ys) \<and> is_walk ys"
  by (cases ys) simp_all

lemma is_walk_append_left: "is_walk (xs @ ys) \<Longrightarrow> is_walk xs"
  by (induction xs rule: is_walk.induct) auto

lemma is_walk_append_right: "is_walk (xs @ ys) \<Longrightarrow> is_walk ys"
proof (induction xs)
  case Nil
  then show ?case by simp
next
  case (Cons x xs)
  show ?case
  proof (cases "xs @ ys")
    case Nil
    then show ?thesis by simp
  next
    case (Cons z zs)
    with Cons.prems have "is_walk (xs @ ys)" by simp
    then show ?thesis by (rule Cons.IH)
  qed
qed



lemma cycle_search_complete:
  "is_walk (cur # w) \<Longrightarrow> w \<noteq> [] \<Longrightarrow> last w = origin \<Longrightarrow> set w \<subseteq> set nodes \<Longrightarrow> length w \<le> k \<Longrightarrow>
   cycle_search k nodes origin cur \<noteq> None"
proof (induction k arbitrary: cur w)
  case 0
  then show ?case by simp
next
  case (Suc k)
  show ?case
  proof (cases "depends_on cur origin")
    case True
    then show ?thesis by simp
  next
    case False
    from Suc.prems(2) obtain x w' where w: "w = x # w'" by (cases w) auto
    from Suc.prems(1) w have dx: "depends_on cur x" and wx: "is_walk (x # w')" by simp_all
    have ne: "w' \<noteq> []"
    proof
      assume "w' = []"
      with w Suc.prems(3) have "x = origin" by simp
      with dx False show False by simp
    qed
    from Suc.prems w ne have "last w' = origin" "set w' \<subseteq> set nodes" "length w' \<le> k" "x \<in> set nodes"
      by auto
    from Suc.IH[OF wx ne this(1,2,3)] have "cycle_search k nodes origin x \<noteq> None" .
    moreover from \<open>x \<in> set nodes\<close> dx have "x \<in> set (filter (depends_on cur) nodes)" by simp
    ultimately have "first_some (map (\<lambda>nxt. cycle_search k nodes origin nxt)
                       (filter (depends_on cur) nodes)) \<noteq> None"
      unfolding first_some_None by force
    with False show ?thesis by simp
  qed
qed

lemma short_cycle:
  "is_cycle nodes path \<Longrightarrow> \<exists>path'. is_cycle nodes path' \<and> length path' \<le> Suc (length nodes)"
proof (induction "length path" arbitrary: path rule: less_induct)
  case less
  from less.prems have len: "2 \<le> length path" and hl: "hd path = last path"
    and wk: "is_walk path" and sub: "set path \<subseteq> set nodes"
    by (simp_all add: is_cycle_def)
  from len have ne: "path \<noteq> []" by auto
  have bl: "set (butlast path) \<subseteq> set nodes"
    using sub by (meson in_set_butlastD subsetD subsetI)
  show ?case
  proof (cases "distinct (butlast path)")
    case True
    from bl have "card (set (butlast path)) \<le> card (set nodes)" by (simp add: card_mono)
    with True have "length (butlast path) \<le> card (set nodes)" by (simp add: distinct_card)
    also have "\<dots> \<le> length nodes" by (rule card_length)
    finally have "length path \<le> Suc (length nodes)" by simp
    with less.prems show ?thesis by blast
  next
    case False
    then obtain xs ys zs y where dec: "butlast path = xs @ [y] @ ys @ [y] @ zs"
      using not_distinct_decomp by blast
    let ?c = "[y] @ ys @ [y]"
    from ne have "path = butlast path @ [last path]" by simp
    then have "is_walk (butlast path @ [last path])" using wk by simp
    then have "is_walk (butlast path)" by (rule is_walk_append_left)
    then have "is_walk (xs @ (?c @ zs))" by (simp add: dec)
    then have "is_walk (?c @ zs)" by (rule is_walk_append_right)
    then have w: "is_walk ?c" by (rule is_walk_append_left)
    have s: "set ?c \<subseteq> set nodes" using bl by (auto simp: dec)
    have c: "is_cycle nodes ?c" using w s by (simp add: is_cycle_def)
    have "length ?c \<le> length (butlast path)" by (simp add: dec)
    then have "length ?c < length path" using ne by simp
    from less.hyps[OF this c] show ?thesis .
  qed
qed

lemma detect_complete:
  assumes "is_cycle nodes path"
  shows "detectCircularDependency nodes \<noteq> None"
proof -
  from short_cycle[OF assms] obtain path' where c: "is_cycle nodes path'"
    and len: "length path' \<le> Suc (length nodes)" by blast
  from c have l2: "2 \<le> length path'" and hl: "hd path' = last path'"
    and wk: "is_walk path'" and sub: "set path' \<subseteq> set nodes"
    by (simp_all add: is_cycle_def)
  from l2 obtain origin w where p: "path' = origin # w" and ne: "w \<noteq> []"
    by (cases path'; cases "tl path'") auto
  from hl p ne have lw: "last w = origin" by simp
  from sub p have sw: "set w \<subseteq> set nodes" and orig: "origin \<in> set nodes" by auto
  from len p have "length w \<le> length nodes" by simp
  from cycle_search_complete[OF wk[unfolded p] ne lw sw this]
  have "cycle_search (length nodes) nodes origin origin \<noteq> None" .
  with orig show ?thesis
    unfolding detectCircularDependency_def first_some_None by force
qed

section \<open>The order in which the plugin promises settle\<close>

lemma settled_start_plugin: "settled (start_plugin c p s) = settled s @ cyc_entry c p"
  by (simp add: start_plugin_def cyc_entry_def reject_def split: option.splits)


lemma settled_complete: "\<exists>ext. settled (complete c op s) = settled s @ ext"
  by (cases op)
     (auto simp: reject_def fail_visit_def Let_def split: sum.splits option.splits)








lemma start_outcome:
  assumes "startPromise b = None" and "start_index en b = Some ix"
  shows "promise_all (allPluginIds ix) (initPlugins (start_ctx en b ix) (allPluginIds ix) sched) = Rejected e
           \<Longrightarrow> fst (start en sched b) = Rejected e"
    and "promise_all (allPluginIds ix) (initPlugins (start_ctx en b ix) (allPluginIds ix) sched) \<noteq> Fulfilled
           \<Longrightarrow> fst (start en sched b) \<noteq> Fulfilled"
proof -
  let ?h = "registry en b"
  let ?l = "listeners b @
     [(''SIGTERM'', ExitHandler), (''SIGINT'', ExitHandler), (''beforeExit'', ExitHandler)]"
  let ?b1 = "b\<lparr>listeners := ?l\<rparr>"
  let ?b2 = "b\<lparr>listeners := ?l, serviceHolder := Some ?h\<rparr>"
  let ?s = "initPlugins (start_ctx en b ix) (allPluginIds ix) sched"
  obtain r b3 where pr: "prepare en ?h ?b2 = (r, b3)" by (cases "prepare en ?h ?b2")
  from assms(2) have "fst (prepare en ?h b) = Inr ix"
    by (simp add: start_index_def split: sum.splits)
  with prepare_upd[where en=en and h="?h" and b=b and l="?l" and sh="Some ?h"] pr
  have r: "r = Inr ix" by simp
  have h1: "registry en ?b1 = ?h" by (simp add: registry_def)
  let ?b4 = "b3\<lparr>events := events b3 @ trace ?s\<rparr>"
  have ds: "doStart en sched ?b1 =
      (case promise_all (allPluginIds ix) ?s of
         Rejected e \<Rightarrow> (Rejected e, ?b4) | Pending \<Rightarrow> (Pending, ?b4)
       | Fulfilled \<Rightarrow> finish_start en ?h ?b4)"
    using pr r unfolding start_ctx_def by (simp add: doStart_def h1 Let_def)
  have st: "fst (start en sched b) = fst (doStart en sched ?b1)"
    using assms(1) by (simp add: start_def Let_def split: prod.splits)
  show "promise_all (allPluginIds ix) ?s = Rejected e \<Longrightarrow> fst (start en sched b) = Rejected e"
    using ds st by simp
  show "promise_all (allPluginIds ix) ?s \<noteq> Fulfilled \<Longrightarrow> fst (start en sched b) \<noteq> Fulfilled"
    using ds st by (cases "promise_all (allPluginIds ix) ?s") simp_all
qed

lemma module_node_unique:
  assumes "distinct (map fst ms)" and "(a, mia) \<in> set ms"
    and "n \<in> set (module_nodes ms)" and "n_moduleId n = a"
  shows "n_consumes n = map ref_id (provides mia)" and "n_provides n = map ref_id (consumes mia)"
    and "n_moduleInit n = mia"
proof -
  from assms(3) obtain a' mi' where m: "(a', mi') \<in> set ms"
    and n: "n = \<lparr> n_moduleId = a', n_moduleInit = mi',
                   n_consumes = map ref_id (provides mi'),
                   n_provides = map ref_id (consumes mi') \<rparr>"
    by (auto simp: module_nodes_def)
  from n assms(4) have "a' = a" by simp
  with m assms(1,2) have "mi' = mia" by (meson eq_key_imp_eq_value)
  with n show "n_consumes n = map ref_id (provides mia)"
    and "n_provides n = map ref_id (consumes mia)" and "n_moduleInit n = mia" by simp_all
qed

lemma module_node_mem:
  "(b, mib) \<in> set ms \<Longrightarrow>
   \<lparr> n_moduleId = b, n_moduleInit = mib, n_consumes = map ref_id (provides mib),
     n_provides = map ref_id (consumes mib) \<rparr> \<in> set (module_nodes ms)"
  by (force simp: module_nodes_def)

section \<open>The plugin tasks run to completion\<close>

lemma op_weight_pos: "0 < op_weight op"
  by (cases op) simp_all

lemma weight_zero_inflight: "sum_list (map op_weight ops) = 0 \<Longrightarrow> ops = []"
proof (cases ops)
  case Nil
  then show ?thesis by simp
next
  case (Cons a list)
  assume "sum_list (map op_weight ops) = 0"
  with Cons op_weight_pos[of a] show ?thesis by simp
qed

lemma weight_ModDeps: "sum_list (map (op_weight \<circ> (\<lambda>(q, n). ModDeps q n)) xs) = 6 * length xs"
  by (induction xs) auto

lemma weight_plugin_stage: "sum_list (map op_weight (plugin_stage c p)) \<le> 4"
  by (simp add: plugin_stage_def split: option.splits)

lemma weight_advance: "weight (advance c p s) \<le> weight s + 4"
proof -
  let ?P = "\<lambda>(q, n). q = p \<and> ready (nodes_of c p) (finished s) p n"
  have len: "length (filter ?P (waiting s)) + length (filter (\<lambda>w. \<not> ?P w) (waiting s)) = length (waiting s)"
    by (rule sum_length_filter_compl)
  show ?thesis
    using len weight_plugin_stage[of c p]
    by (simp add: advance_def Let_def weight_def weight_ModDeps)
qed

lemma weight_reject [simp]: "weight (reject p e s) = weight s"
  by (simp add: weight_def reject_def)

lemma weight_fail_visit [simp]: "weight (fail_visit p e s) = weight s"
  by (simp add: weight_def fail_visit_def)

lemma weight_complete: "weight (complete c op s) < weight s + op_weight op"
proof (cases op)
  case (ModInit p n d)
  have "weight (advance c p (s\<lparr>trace := trace s @ [ModuleInitCompleted p (n_moduleId n)],
                      finished := finished s @ [(p, n_moduleId n)]\<rparr>)) \<le> weight s + 4"
    using weight_advance[of c p "s\<lparr>trace := trace s @ [ModuleInitCompleted p (n_moduleId n)],
                      finished := finished s @ [(p, n_moduleId n)]\<rparr>"]
    by (simp add: weight_def)
  with ModInit show ?thesis
    by (auto simp: Let_def weight_def fail_visit_def split: option.splits)
qed (auto simp: weight_def reject_def fail_visit_def split: sum.splits option.splits)

lemma weight_step: "inflight s \<noteq> [] \<Longrightarrow> weight (step c k s) < weight s"
proof -
  assume "inflight s \<noteq> []"
  then obtain pre op post where eq: "inflight s = pre @ op # post"
    and st: "step c k s = complete c op (s\<lparr>inflight := pre @ post\<rparr>)"
    by (rule step_cases)
  have "weight s = weight (s\<lparr>inflight := pre @ post\<rparr>) + op_weight op"
    by (simp add: weight_def eq)
  with weight_complete[of c op "s\<lparr>inflight := pre @ post\<rparr>"] st show ?thesis by simp
qed

lemma drain_completes: "weight s \<le> n \<Longrightarrow> inflight (drain n c s) = []"
proof (induction n arbitrary: s)
  case 0
  then show ?case by (simp add: weight_def weight_zero_inflight)
next
  case (Suc n)
  show ?case
  proof (cases "inflight s = []")
    case True
    then show ?thesis by simp
  next
    case False
    from weight_step[OF False, of c 0] Suc.prems have "weight (step c 0 s) \<le> n" by simp
    from Suc.IH[OF this] False show ?thesis by simp
  qed
qed

lemma initPlugins_completes: "inflight (initPlugins c ps sched) = []"
  by (simp add: initPlugins_def Let_def drain_completes)

section \<open>Every plugin promise settles\<close>

lemma footprint_eqD:
  assumes "footprint s' p = footprint s p"
  shows "(p, n) \<in> set (waiting s') \<longleftrightarrow> (p, n) \<in> set (waiting s)"
    and "(p, m) \<in> set (finished s') \<longleftrightarrow> (p, m) \<in> set (finished s)"
    and "p \<in> set (failed s') \<longleftrightarrow> p \<in> set (failed s)"
    and "op_plugin op = p \<Longrightarrow> op \<in> set (inflight s') \<longleftrightarrow> op \<in> set (inflight s)"
  using assms by (auto simp: footprint_def)

lemma ready_footprint:
  assumes "footprint s' p = footprint s p"
  shows "ready nodes (finished s') p n = ready nodes (finished s) p n"
  by (simp add: ready_def footprint_eqD(2)[OF assms])

lemma all_finished_footprint:
  assumes "footprint s' p = footprint s p"
  shows "all_finished c s' p = all_finished c s p"
  by (simp add: all_finished_def footprint_eqD(2)[OF assms])

lemma conserved_footprint:
  assumes "footprint s' p = footprint s p"
  shows "conserved c s' p = conserved c s p"
  unfolding conserved_def
  using footprint_eqD(1,2,4)[OF assms] by (metis (no_types, lifting))

lemma live_footprint:
  assumes "footprint s' p = footprint s p" and "p \<in> fst ` set (settled s) \<Longrightarrow> p \<in> fst ` set (settled s')"
    and "live c s p"
  shows "live c s' p"
proof (cases "p \<in> fst ` set (settled s)")
  case True
  with assms(2) show ?thesis by (simp add: live_def)
next
  case False
  with assms(3) have c: "conserved c s p"
    and a: "all_finished c s p \<longrightarrow> (\<exists>op \<in> set (inflight s). op_plugin op = p \<and> op_node op = None)"
    and w: "\<forall>n. (p, n) \<in> set (waiting s) \<longrightarrow> \<not> ready (nodes_of c p) (finished s) p n"
    and d: "detectCircularDependency (nodes_of c p) = None" and f: "p \<notin> set (failed s)"
    by (simp_all add: live_def)
  have c': "conserved c s' p" using c conserved_footprint[OF assms(1)] by simp
  have a': "all_finished c s' p \<longrightarrow> (\<exists>op \<in> set (inflight s'). op_plugin op = p \<and> op_node op = None)"
    using a all_finished_footprint[OF assms(1)] footprint_eqD(4)[OF assms(1)] by metis
  have w': "\<forall>n. (p, n) \<in> set (waiting s') \<longrightarrow> \<not> ready (nodes_of c p) (finished s') p n"
    using w ready_footprint[OF assms(1)] footprint_eqD(1)[OF assms(1)] by simp
  have f': "p \<notin> set (failed s')" using f footprint_eqD(3)[OF assms(1)] by simp
  from c' a' w' d f' show ?thesis by (simp add: live_def)
qed

lemma plugin_stage_ops: "op \<in> set (plugin_stage c q) \<Longrightarrow> op_plugin op = q \<and> op_node op = None"
  by (auto simp: plugin_stage_def split: option.splits)

lemma plugin_stage_nonempty: "plugin_stage c q \<noteq> []"
  by (simp add: plugin_stage_def split: option.splits)

lemma footprint_advance_other: "q \<noteq> p \<Longrightarrow> footprint (advance c q s) p = footprint s p"
  by (auto simp: footprint_def advance_def Let_def dest: plugin_stage_ops)

lemma footprint_reject_other: "footprint (reject q e s) p = footprint s p"
  by (simp add: footprint_def reject_def)

lemma footprint_fail_visit_other: "q \<noteq> p \<Longrightarrow> footprint (fail_visit q e s) p = footprint s p"
  by (simp add: footprint_def fail_visit_def)

lemma footprint_complete_other:
  "op_plugin op \<noteq> p \<Longrightarrow> footprint (complete c op s) p = footprint s p"
proof (cases op)
  case (ModInit q n d)
  assume ne: "op_plugin op \<noteq> p"
  with ModInit have qp: "q \<noteq> p" by simp
  let ?s1 = "s\<lparr>trace := trace s @ [ModuleInitCompleted q (n_moduleId n)],
               finished := finished s @ [(q, n_moduleId n)]\<rparr>"
  have 1: "footprint ?s1 p = footprint s p" using qp by (auto simp: footprint_def)
  have 2: "footprint (advance c q ?s1) p = footprint s p"
    using footprint_advance_other[OF qp, of c ?s1] 1 by simp
  have 3: "footprint (fail_visit q e (s\<lparr>trace := t\<rparr>)) p = footprint s p" for e t
    using footprint_fail_visit_other[OF qp, of e "s\<lparr>trace := t\<rparr>"] by (simp add: footprint_def)
  from 1 2 3 ModInit show ?thesis by (simp add: Let_def split: option.splits)
qed (auto simp: footprint_def reject_def fail_visit_def split: sum.splits option.splits)

lemma footprint_remove_other:
  "inflight s = pre @ op # post \<Longrightarrow> op_plugin op \<noteq> p \<Longrightarrow>
   footprint (s\<lparr>inflight := pre @ post\<rparr>) p = footprint s p"
  by (auto simp: footprint_def)

lemma settled_mono_complete:
  "p \<in> fst ` set (settled s) \<Longrightarrow> p \<in> fst ` set (settled (complete c op s))"
  using settled_complete[of c op s] by auto

lemma live_other:
  assumes "live c s p" and "inflight s = pre @ op # post" and "op_plugin op \<noteq> p"
  shows "live c (complete c op (s\<lparr>inflight := pre @ post\<rparr>)) p"
proof (rule live_footprint[OF _ _ assms(1)])
  show "footprint (complete c op (s\<lparr>inflight := pre @ post\<rparr>)) p = footprint s p"
    using footprint_complete_other[OF assms(3)] footprint_remove_other[OF assms(2,3)] by simp
  show "p \<in> fst ` set (settled s) \<Longrightarrow>
        p \<in> fst ` set (settled (complete c op (s\<lparr>inflight := pre @ post\<rparr>)))"
    using settled_mono_complete[of p "s\<lparr>inflight := pre @ post\<rparr>" c op] by simp
qed

lemma live_advance:
  assumes "conserved c s p" and "detectCircularDependency (nodes_of c p) = None"
    and "p \<notin> set (failed s)"
  shows "live c (advance c p s) p"
proof -
  let ?P = "\<lambda>(q, n). q = p \<and> ready (nodes_of c p) (finished s) p n"
  have cons: "conserved c (advance c p s) p"
    unfolding conserved_def
  proof
    fix n assume "n \<in> set (nodes_of c p)"
    with assms(1) consider "(p, n) \<in> set (waiting s)"
      | "\<exists>op \<in> set (inflight s). op_plugin op = p \<and> op_node op = Some n"
      | "(p, n_moduleId n) \<in> set (finished s)"
      unfolding conserved_def by blast
    then show "(p, n) \<in> set (waiting (advance c p s)) \<or>
        (\<exists>op \<in> set (inflight (advance c p s)). op_plugin op = p \<and> op_node op = Some n) \<or>
        (p, n_moduleId n) \<in> set (finished (advance c p s))"
    proof cases
      case 1
      show ?thesis
      proof (cases "ready (nodes_of c p) (finished s) p n")
        case True
        with 1 have "ModDeps p n \<in> set (inflight (advance c p s))"
          by (auto simp: advance_def Let_def intro!: image_eqI[of _ _ "(p, n)"])
        then show ?thesis by force
      next
        case False
        with 1 have "(p, n) \<in> set (waiting (advance c p s))"
          by (auto simp: advance_def Let_def)
        then show ?thesis by simp
      qed
    next
      case 2
      then obtain op where "op \<in> set (inflight s)" "op_plugin op = p" "op_node op = Some n" by blast
      then have "op \<in> set (inflight (advance c p s))" by (auto simp: advance_def Let_def)
      with \<open>op_plugin op = p\<close> \<open>op_node op = Some n\<close> show ?thesis by blast
    next
      case 3
      then show ?thesis by simp
    qed
  qed
  have stage: "all_finished c (advance c p s) p \<longrightarrow>
      (\<exists>op \<in> set (inflight (advance c p s)). op_plugin op = p \<and> op_node op = None)"
  proof
    assume "all_finished c (advance c p s) p"
    then have af: "all_finished c s p" by (simp add: all_finished_def)
    from plugin_stage_nonempty[of c p] obtain op where op: "op \<in> set (plugin_stage c p)"
      by (cases "plugin_stage c p") auto
    with af have "op \<in> set (inflight (advance c p s))" by (simp add: advance_def Let_def)
    with plugin_stage_ops[OF op] show "\<exists>op \<in> set (inflight (advance c p s)). op_plugin op = p \<and> op_node op = None"
      by blast
  qed
  have wait: "\<forall>n. (p, n) \<in> set (waiting (advance c p s)) \<longrightarrow>
                \<not> ready (nodes_of c p) (finished (advance c p s)) p n"
    by (auto simp: advance_def Let_def)
  from cons stage wait assms(2,3) show ?thesis by (simp add: live_def)
qed

lemma live_settled: "p \<in> fst ` set (settled s) \<Longrightarrow> live c s p"
  by (simp add: live_def)

lemma live_reject: "live c (reject p e s) p"
  by (rule live_settled) (force simp: reject_def)

lemma live_fail_visit: "p \<notin> set (failed s) \<Longrightarrow> live c (fail_visit p e s) p"
  by (rule live_settled) (force simp: fail_visit_def)

text \<open>Replacing the operation in flight by its successor keeps the plugin live.\<close>

lemma live_replace:
  assumes l: "live c s p" and ns: "p \<notin> fst ` set (settled s)"
    and eq: "inflight s = pre @ op # post" and pl: "op_plugin op = p"
    and succ: "op_plugin op' = p" "op_node op' = op_node op"
  shows "live c (s\<lparr>inflight := (pre @ post) @ [op'], trace := t\<rparr>) p"
proof -
  let ?s' = "s\<lparr>inflight := (pre @ post) @ [op'], trace := t\<rparr>"
  from l ns have c: "conserved c s p"
    and a: "all_finished c s p \<longrightarrow> (\<exists>op \<in> set (inflight s). op_plugin op = p \<and> op_node op = None)"
    and w: "\<forall>n. (p, n) \<in> set (waiting s) \<longrightarrow> \<not> ready (nodes_of c p) (finished s) p n"
    and d: "detectCircularDependency (nodes_of c p) = None" and f: "p \<notin> set (failed s)"
    by (simp_all add: live_def)
  have keep: "\<exists>o2 \<in> set (inflight ?s'). op_plugin o2 = p \<and> op_node o2 = op_node o1"
    if "o1 \<in> set (inflight s)" "op_plugin o1 = p" for o1
  proof (cases "o1 = op")
    case True
    with succ show ?thesis by auto
  next
    case False
    with that eq have "o1 \<in> set (inflight ?s')" by auto
    with that show ?thesis by blast
  qed
  have c': "conserved c ?s' p"
    unfolding conserved_def
  proof
    fix n assume "n \<in> set (nodes_of c p)"
    with c consider "(p, n) \<in> set (waiting s)"
      | "\<exists>op \<in> set (inflight s). op_plugin op = p \<and> op_node op = Some n"
      | "(p, n_moduleId n) \<in> set (finished s)"
      unfolding conserved_def by blast
    then show "(p, n) \<in> set (waiting ?s') \<or>
        (\<exists>op \<in> set (inflight ?s'). op_plugin op = p \<and> op_node op = Some n) \<or>
        (p, n_moduleId n) \<in> set (finished ?s')"
    proof cases
      case 2
      then obtain o1 where "o1 \<in> set (inflight s)" "op_plugin o1 = p" "op_node o1 = Some n" by blast
      with keep[of o1] show ?thesis by auto
    qed simp_all
  qed
  have a': "all_finished c ?s' p \<longrightarrow> (\<exists>op \<in> set (inflight ?s'). op_plugin op = p \<and> op_node op = None)"
  proof
    assume "all_finished c ?s' p"
    then have "all_finished c s p" by (simp add: all_finished_def)
    with a obtain o1 where "o1 \<in> set (inflight s)" "op_plugin o1 = p" "op_node o1 = None" by blast
    with keep[of o1] show "\<exists>op \<in> set (inflight ?s'). op_plugin op = p \<and> op_node op = None" by auto
  qed
  from c' a' w d f show ?thesis by (simp add: live_def)
qed

lemma live_own:
  assumes l: "live c s p" and eq: "inflight s = pre @ op # post" and pl: "op_plugin op = p"
  shows "live c (complete c op (s\<lparr>inflight := pre @ post\<rparr>)) p"
proof (cases "p \<in> fst ` set (settled s)")
  case True
  then have "p \<in> fst ` set (settled (s\<lparr>inflight := pre @ post\<rparr>))" by simp
  from settled_mono_complete[OF this] show ?thesis by (rule live_settled)
next
  case False
  let ?s0 = "s\<lparr>inflight := pre @ post\<rparr>"
  from l False have c: "conserved c s p"
    and w: "\<forall>n. (p, n) \<in> set (waiting s) \<longrightarrow> \<not> ready (nodes_of c p) (finished s) p n"
    and d: "detectCircularDependency (nodes_of c p) = None" and f: "p \<notin> set (failed s)"
    by (simp_all add: live_def)
  note rep = live_replace[OF l False eq pl]
  show ?thesis
  proof (cases op)
    case (ModDeps q n)
    with pl have q: "q = p" by simp
    show ?thesis
    proof (cases "getInitDeps (c_extensionPoints c) (c_holder c) (deps (init (n_moduleInit n))) p")
      case (Inl e)
      with ModDeps q live_fail_visit[of p ?s0 c e] f show ?thesis by simp
    next
      case (Inr dd)
      with ModDeps q rep[of "ModInit p n dd" "trace s @ [ModuleInitInvoked p (n_moduleId n)]"]
      show ?thesis by simp
    qed
  next
    case (ModInit q n dd)
    with pl have q: "q = p" by simp
    show ?thesis
    proof (cases "func (init (n_moduleInit n)) dd")
      case (Some cause)
      with ModInit q f
        live_fail_visit[of p "?s0\<lparr>trace := trace s @ [ModuleInitRejected p (n_moduleId n)]\<rparr>" c]
      show ?thesis by simp
    next
      case None
      let ?s1 = "?s0\<lparr>trace := trace ?s0 @ [ModuleInitCompleted p (n_moduleId n)],
                     finished := finished ?s0 @ [(p, n_moduleId n)]\<rparr>"
      have c1: "conserved c ?s1 p"
        unfolding conserved_def
      proof
        fix n' assume "n' \<in> set (nodes_of c p)"
        with c consider "(p, n') \<in> set (waiting s)"
          | "\<exists>op \<in> set (inflight s). op_plugin op = p \<and> op_node op = Some n'"
          | "(p, n_moduleId n') \<in> set (finished s)"
          unfolding conserved_def by blast
        then show "(p, n') \<in> set (waiting ?s1) \<or>
            (\<exists>op \<in> set (inflight ?s1). op_plugin op = p \<and> op_node op = Some n') \<or>
            (p, n_moduleId n') \<in> set (finished ?s1)"
        proof cases
          case 2
          then obtain o1 where o1: "o1 \<in> set (inflight s)" "op_plugin o1 = p" "op_node o1 = Some n'"
            by blast
          show ?thesis
          proof (cases "o1 = op")
            case True
            with o1 ModInit have "n' = n" by simp
            then show ?thesis by simp
          next
            case False
            with o1 eq have "o1 \<in> set (inflight ?s1)" by auto
            with o1 show ?thesis by blast
          qed
        qed simp_all
      qed
      have f1: "p \<notin> set (failed ?s1)" using f by simp
      from live_advance[OF c1 d f1] ModInit q None f show ?thesis by (simp add: Let_def)
    qed
  next
    case (PlugDeps q i)
    with pl have q: "q = p" by simp
    show ?thesis
    proof (cases "getInitDeps (c_extensionPoints c) (c_holder c) (deps (init i)) p")
      case (Inl e)
      with PlugDeps q live_reject[of c p e ?s0] show ?thesis by simp
    next
      case (Inr dd)
      with PlugDeps q rep[of "PlugInit p i dd" "trace s @ [PluginInitInvoked p]"]
      show ?thesis by simp
    qed
  next
    case (PlugInit q i dd)
    with pl have q: "q = p" by simp
    show ?thesis
    proof (cases "func (init i) dd")
      case (Some cause)
      with PlugInit q live_reject[of c p _ "?s0\<lparr>trace := trace s @ [PluginInitRejected p]\<rparr>"]
      show ?thesis by simp
    next
      case None
      with PlugInit q rep[of "PlugLifecycle p" "trace s @ [PluginInitCompleted p]"]
      show ?thesis by simp
    qed
  next
    case (PlugLifecycle q)
    with pl have q: "q = p" by simp
    show ?thesis
    proof (cases "getPluginLifecycleImpl (c_holder c) p")
      case (Inl e)
      with PlugLifecycle q live_reject[of c p e ?s0] show ?thesis by simp
    next
      case (Inr i)
      with PlugLifecycle q rep[of "PlugStartup p" "trace s @ [PluginStartupInvoked p]"]
      show ?thesis by simp
    qed
  next
    case (PlugStartup q)
    with pl have q: "q = p" by simp
    show ?thesis
    proof (cases "c_pluginStartup c p")
      case (Some e)
      with PlugStartup q live_reject[of c p e "?s0\<lparr>trace := trace s @ [PluginStartupRejected p]\<rparr>"]
      show ?thesis by simp
    next
      case None
      have "live c (?s0\<lparr>settled := settled s @ [(p, None)], trace := trace s @ [PluginStartupCompleted p]\<rparr>) p"
        by (rule live_settled) force
      with PlugStartup q None show ?thesis by simp
    qed
  qed
qed

lemma live_step: "live c s p \<Longrightarrow> live c (step c k s) p"
proof (cases "inflight s = []")
  case True
  assume "live c s p"
  with True show ?thesis by (simp add: step_def)
next
  case False
  assume l: "live c s p"
  from False obtain pre op post where eq: "inflight s = pre @ op # post"
    and st: "step c k s = complete c op (s\<lparr>inflight := pre @ post\<rparr>)"
    by (rule step_cases)
  show ?thesis
  proof (cases "op_plugin op = p")
    case True
    from live_own[OF l eq True] st show ?thesis by simp
  next
    case False
    from live_other[OF l eq False] st show ?thesis by simp
  qed
qed

lemma live_run: "live c s p \<Longrightarrow> live c (run c ks s) p"
  by (induction ks arbitrary: s) (simp_all add: live_step)

lemma live_drain: "live c s p \<Longrightarrow> live c (drain n c s) p"
  by (induction n arbitrary: s) (simp_all add: live_step)

lemma failed_start_plugin: "failed (start_plugin c q s) = failed s"
  by (simp add: start_plugin_def reject_def split: option.splits)

lemma footprint_start_plugin_other: "q \<noteq> p \<Longrightarrow> footprint (start_plugin c q s) p = footprint s p"
proof -
  assume qp: "q \<noteq> p"
  let ?s1 = "s\<lparr>waiting := waiting s @ map (Pair q) (nodes_of c q)\<rparr>"
  have 1: "footprint ?s1 p = footprint s p" using qp by (auto simp: footprint_def)
  from footprint_advance_other[OF qp, of c ?s1] 1 footprint_reject_other[of q _ s p]
  show ?thesis by (simp add: start_plugin_def split: option.splits)
qed

lemma settled_mono_start_plugin:
  "p \<in> fst ` set (settled s) \<Longrightarrow> p \<in> fst ` set (settled (start_plugin c q s))"
  by (auto simp: settled_start_plugin)

lemma live_start_plugin_self:
  assumes "failed s = []"
  shows "live c (start_plugin c p s) p"
proof (cases "detectCircularDependency (nodes_of c p)")
  case (Some circular)
  with live_reject[of c p _ s] show ?thesis by (simp add: start_plugin_def)
next
  case None
  let ?s1 = "s\<lparr>waiting := waiting s @ map (Pair p) (nodes_of c p)\<rparr>"
  have c: "conserved c ?s1 p" by (auto simp: conserved_def)
  have f: "p \<notin> set (failed ?s1)" using assms by simp
  from live_advance[OF c None f] None show ?thesis by (simp add: start_plugin_def)
qed

lemma live_start_plugin:
  assumes "failed s = []" and "live c s p"
  shows "live c (start_plugin c q s) p"
proof (cases "q = p")
  case True
  with live_start_plugin_self[OF assms(1), of c p] show ?thesis by simp
next
  case False
  show ?thesis
    by (rule live_footprint[OF footprint_start_plugin_other[OF False] settled_mono_start_plugin assms(2)])
qed

lemma live_fold_start:
  "failed s = [] \<Longrightarrow> (p \<in> set ps \<or> live c s p) \<Longrightarrow>
   failed (fold (start_plugin c) ps s) = [] \<and> live c (fold (start_plugin c) ps s) p"
proof (induction ps arbitrary: s)
  case Nil
  then show ?case by simp
next
  case (Cons q ps)
  have f: "failed (start_plugin c q s) = []" using Cons.prems(1) by (simp add: failed_start_plugin)
  have "p \<in> set ps \<or> live c (start_plugin c q s) p"
  proof (cases "p \<in> set ps")
    case True
    then show ?thesis by simp
  next
    case False
    with Cons.prems(2) have "q = p \<or> live c s p" by auto
    then have "live c (start_plugin c q s) p"
      using live_start_plugin_self[OF Cons.prems(1), of c p] live_start_plugin[OF Cons.prems(1), of c p q]
      by auto
    then show ?thesis by simp
  qed
  from Cons.IH[OF f this] show ?case by simp
qed

lemma live_initPlugins: "p \<in> set ps \<Longrightarrow> live c (initPlugins c ps sched) p"
proof -
  assume "p \<in> set ps"
  with live_fold_start[of empty_sched p ps c]
  have "live c (fold (start_plugin c) ps empty_sched) p" by (simp add: empty_sched_def)
  then show ?thesis by (simp add: initPlugins_def Let_def live_drain live_run)
qed

text \<open>A finite set of nodes each of which depends on a node of the set contains a cycle.\<close>

lemma walk_in:
  assumes "\<forall>n \<in> W. \<exists>n' \<in> W. depends_on n n'" and "w0 \<in> W"
  shows "\<exists>path. length path = Suc k \<and> hd path = w0 \<and> is_walk path \<and> set path \<subseteq> W"
  using assms(2)
proof (induction k arbitrary: w0)
  case 0
  then show ?case by (intro exI[of _ "[w0]"]) simp
next
  case (Suc k)
  from assms(1) Suc.prems obtain w1 where w1: "w1 \<in> W" "depends_on w0 w1" by blast
  from Suc.IH[OF w1(1)] obtain path where
    p: "length path = Suc k" "hd path = w1" "is_walk path" "set path \<subseteq> W" by blast
  from p(1) have ne: "path \<noteq> []" by auto
  show ?case
    using p w1 Suc.prems ne by (intro exI[of _ "w0 # path"]) (simp add: is_walk_Cons)
qed

lemma cycle_in:
  assumes "\<forall>n \<in> W. \<exists>n' \<in> W. depends_on n n'" and "w0 \<in> W" and "W \<subseteq> set nodes"
  shows "\<exists>path. is_cycle nodes path"
proof -
  from walk_in[OF assms(1,2), of "length nodes"] obtain path where
    p: "length path = Suc (length nodes)" "is_walk path" "set path \<subseteq> W" by blast
  have "\<not> distinct path"
  proof
    assume "distinct path"
    then have "length path = card (set path)" by (simp add: distinct_card)
    also have "\<dots> \<le> card (set nodes)" using p(3) assms(3) by (intro card_mono) auto
    also have "\<dots> \<le> length nodes" by (rule card_length)
    finally show False using p(1) by simp
  qed
  then obtain xs ys zs y where dec: "path = xs @ [y] @ ys @ [y] @ zs"
    using not_distinct_decomp by blast
  let ?c = "[y] @ ys @ [y]"
  from p(2) have "is_walk (xs @ (?c @ zs))" by (simp add: dec)
  then have "is_walk (?c @ zs)" by (rule is_walk_append_right)
  then have w: "is_walk ?c" by (rule is_walk_append_left)
  have "set ?c \<subseteq> set nodes" using p(3) assms(3) by (auto simp: dec)
  with w have "is_cycle nodes ?c" by (simp add: is_cycle_def)
  then show ?thesis by blast
qed

lemma live_quiescent:
  assumes "live c s p" and "inflight s = []"
  shows "p \<in> fst ` set (settled s)"
proof (rule ccontr)
  assume ns: "p \<notin> fst ` set (settled s)"
  with assms(1) have c: "conserved c s p"
    and a: "all_finished c s p \<longrightarrow> (\<exists>op \<in> set (inflight s). op_plugin op = p \<and> op_node op = None)"
    and w: "\<forall>n. (p, n) \<in> set (waiting s) \<longrightarrow> \<not> ready (nodes_of c p) (finished s) p n"
    and d: "detectCircularDependency (nodes_of c p) = None"
    by (simp_all add: live_def)
  let ?W = "{n \<in> set (nodes_of c p). (p, n_moduleId n) \<notin> set (finished s)}"
  from a assms(2) have "\<not> all_finished c s p" by auto
  then obtain w0 where w0: "w0 \<in> ?W" by (auto simp: all_finished_def list_all_iff)
  have succ: "\<forall>n \<in> ?W. \<exists>n' \<in> ?W. depends_on n n'"
  proof
    fix n assume n: "n \<in> ?W"
    with c assms(2) have "(p, n) \<in> set (waiting s)" by (auto simp: conserved_def)
    with w have "\<not> ready (nodes_of c p) (finished s) p n" by simp
    then show "\<exists>n' \<in> ?W. depends_on n n'" by (auto simp: ready_def list_all_iff)
  qed
  from cycle_in[OF succ w0, of "nodes_of c p"] obtain path where "is_cycle (nodes_of c p) path"
    by auto
  from detect_complete[OF this] d show False by simp
qed

lemma initPlugins_settles: "p \<in> set ps \<Longrightarrow> p \<in> fst ` set (settled (initPlugins c ps sched))"
  by (rule live_quiescent[OF live_initPlugins initPlugins_completes])

lemma promise_all_settles: "promise_all ps (initPlugins c ps sched) \<noteq> Pending"
proof
  let ?s = "initPlugins c ps sched"
  assume pend: "promise_all ps ?s = Pending"
  then have none: "List.map_filter snd (settled ?s) = []"
    by (simp add: promise_all_def split: list.splits if_splits)
  have "(p, None) \<in> set (settled ?s)" if "p \<in> set ps" for p
  proof -
    from initPlugins_settles[OF that, of c sched] obtain r where r: "(p, r) \<in> set (settled ?s)"
      by auto
    have "r = None"
    proof (cases r)
      case (Some e)
      with r have "e \<in> set (List.map_filter snd (settled ?s))"
        by (force simp: List.map_filter_def)
      with none show ?thesis by simp
    qed simp
    with r show ?thesis by simp
  qed
  then have "list_all (\<lambda>p. (p, None) \<in> set (settled ?s)) ps" by (simp add: list_all_iff)
  with pend none show False by (simp add: promise_all_def)
qed

lemma finish_start_settles: "fst (finish_start en h b) \<noteq> Pending"
  unfolding finish_start_def root_startup_def
  by (auto simp: Let_def split: sum.splits option.splits prod.splits if_splits)

lemma doStart_settles: "fst (doStart en sched b) \<noteq> Pending"
  unfolding doStart_def
  by (auto simp: Let_def promise_all_settles finish_start_settles
           split: sum.splits prod.splits outcome.splits)

lemma start_settles: "fst (start en sched b) \<noteq> Pending"
proof (cases "startPromise b = None")
  case False
  then show ?thesis by (simp add: start_def)
next
  case True
  let ?b1 = "b\<lparr>listeners := listeners b @
     [(''SIGTERM'', ExitHandler), (''SIGINT'', ExitHandler), (''beforeExit'', ExitHandler)]\<rparr>"
  from True have "fst (start en sched b) = fst (doStart en sched ?b1)"
    by (simp add: start_def Let_def split: prod.splits)
  with doStart_settles[of en sched ?b1] show ?thesis by simp
qed

lemma start_rejected: "fst (start en sched b) \<noteq> Fulfilled \<Longrightarrow> \<exists>e. fst (start en sched b) = Rejected e"
  using start_settles[of en sched b] by (cases "fst (start en sched b)") auto

section \<open>Extension points of another plugin\<close>

lemma loop_ownership:
  assumes "\<forall>(n, r) \<in> set ds. \<not> throws eps h p r"
    and "(n0, r0) \<in> set ds" and "foreign eps p r0"
  shows "\<exists>q. q \<noteq> p \<and> getInitDeps_loop eps h p ds res ms = Inl (ExtensionPointOwnershipViolation q p)"
  using assms
proof (induction ds arbitrary: res ms)
  case Nil
  then show ?case by simp
next
  case (Cons d ds)
  obtain n r where d: "d = (n, r)" by (cases d)
  show ?case
  proof (cases "foreign eps p r")
    case True
    then show ?thesis unfolding d by (auto simp: foreign_def split: option.splits)
  next
    case False
    with Cons.prems(2,3) d have mem: "(n0, r0) \<in> set ds" by auto
    from Cons.prems(1) have nt: "\<forall>(n, r) \<in> set ds. \<not> throws eps h p r" and here: "\<not> throws eps h p r"
      by (auto simp: d)
    from Cons.IH[OF nt mem Cons.prems(3)] False here show ?thesis
      unfolding d by (auto simp: foreign_def throws_def split: option.splits sum.splits)
  qed
qed

lemma getInitDeps_foreign:
  assumes "(n, r) \<in> set ds" and "foreign eps p r"
  shows "\<exists>e. getInitDeps eps h ds p = Inl e"
    and "\<forall>(n, r) \<in> set ds. \<not> throws eps h p r \<Longrightarrow>
         \<exists>q. q \<noteq> p \<and> getInitDeps eps h ds p = Inl (ExtensionPointOwnershipViolation q p)"
proof -
  from loop_foreign_fails[OF assms, of h "[]" "[]"]
  show "\<exists>e. getInitDeps eps h ds p = Inl e" by (auto simp: getInitDeps_def)
  assume "\<forall>(n, r) \<in> set ds. \<not> throws eps h p r"
  from loop_ownership[OF this assms, of "[]" "[]"]
  show "\<exists>q. q \<noteq> p \<and> getInitDeps eps h ds p = Inl (ExtensionPointOwnershipViolation q p)"
    by (auto simp: getInitDeps_def)
qed

lemma getInitDeps_binds_own:
  assumes "getInitDeps eps h ds p = Inr result" and "distinct (map fst ds)"
    and "(n, r) \<in> set ds" and "eps (ref_id r) = Some ep"
  shows "map_of result n = Some (ep_impl ep)"
proof -
  from assms(1) obtain ms where "getInitDeps_loop eps h p ds [] [] = Inr (result, ms)"
    by (auto simp: getInitDeps_def split: sum.splits if_splits)
  from loop_binds_own[OF this assms(2,3,4)] show ?thesis .
qed

lemma start_ctx_fields:
  "c_extensionPoints (start_ctx en b ix) = ix_extensionPoints ix"
  "c_holder (start_ctx en b ix) = registry en b"
  by (simp_all add: start_ctx_def make_ctx_def)

lemma fulfilled_plugin_started:
  assumes "promise_all ps (initPlugins c ps sched) = Fulfilled" and "p \<in> set ps"
  shows "PluginStartupInvoked p \<in> set (trace (initPlugins c ps sched))"
proof -
  have wf: "wf_trace c (trace (initPlugins c ps sched))" by (rule wf_initPlugins)
  from settled_completed[OF promise_all_Fulfilled[OF assms]]
  have "PluginStartupCompleted p \<in> set (trace (initPlugins c ps sched))" .
  from wf_trace_enabled[OF wf this] show ?thesis by simp
qed

section \<open>The errors of a failed start\<close>

text \<open>
  The promise of a plugin task is rejected only with one of the errors of that task,
  and only the tasks of \<open>allPluginIds\<close> settle; so a start that fails in
  \<open>Promise.all\<close> fails with one of these errors.
\<close>

lemma task_errors_cycle:
  "detectCircularDependency (nodes_of c p) = Some circular \<Longrightarrow>
   CircularModuleDependency p (map n_moduleId circular) \<in> set (task_errors c p)"
  by (simp add: task_errors_def)

lemma task_errors_module_deps:
  "n \<in> set (nodes_of c p) \<Longrightarrow>
   getInitDeps (c_extensionPoints c) (c_holder c) (deps (init (n_moduleInit n))) p = Inl e \<Longrightarrow>
   e \<in> set (task_errors c p)"
  by (force simp: task_errors_def init_errors_def)

lemma task_errors_module_func:
  "n \<in> set (nodes_of c p) \<Longrightarrow>
   getInitDeps (c_extensionPoints c) (c_holder c) (deps (init (n_moduleInit n))) p = Inr d \<Longrightarrow>
   func (init (n_moduleInit n)) d = Some cause \<Longrightarrow>
   ModuleStartupFailed (n_moduleId n) p cause \<in> set (task_errors c p)"
  by (force simp: task_errors_def init_errors_def)

lemma task_errors_plugin_deps:
  "map_of (c_pluginInits c) p = Some pluginInit \<Longrightarrow>
   getInitDeps (c_extensionPoints c) (c_holder c) (deps (init pluginInit)) p = Inl e \<Longrightarrow>
   e \<in> set (task_errors c p)"
  by (simp add: task_errors_def init_errors_def)

lemma task_errors_plugin_func:
  "map_of (c_pluginInits c) p = Some pluginInit \<Longrightarrow>
   getInitDeps (c_extensionPoints c) (c_holder c) (deps (init pluginInit)) p = Inr d \<Longrightarrow>
   func (init pluginInit) d = Some cause \<Longrightarrow>
   PluginStartupFailed p cause \<in> set (task_errors c p)"
  by (simp add: task_errors_def init_errors_def)

lemma task_errors_lifecycle:
  "getPluginLifecycleImpl (c_holder c) p = Inl e \<Longrightarrow> e \<in> set (task_errors c p)"
  by (simp add: task_errors_def)

lemma task_errors_startup:
  "c_pluginStartup c p = Some e \<Longrightarrow> e \<in> set (task_errors c p)"
  by (simp add: task_errors_def)

lemma errors_ok_reject:
  "errors_ok c s \<Longrightarrow> e \<in> set (task_errors c p) \<Longrightarrow> errors_ok c (reject p e s)"
  by (auto simp: errors_ok_def reject_def)

lemma errors_ok_fail_visit:
  "errors_ok c s \<Longrightarrow> e \<in> set (task_errors c p) \<Longrightarrow> errors_ok c (fail_visit p e s)"
  by (auto simp: errors_ok_def fail_visit_def)

lemma errors_ok_settled: "settled s' = settled s \<Longrightarrow> errors_ok c s \<Longrightarrow> errors_ok c s'"
  by (simp add: errors_ok_def)

lemma errors_ok_complete:
  assumes "errors_ok c s" and "op_ok c s op"
  shows "errors_ok c (complete c op s)"
proof (cases op)
  case (ModDeps p n)
  show ?thesis
  proof (cases "getInitDeps (c_extensionPoints c) (c_holder c) (deps (init (n_moduleInit n))) p")
    case (Inl e)
    with assms(2) ModDeps have "e \<in> set (task_errors c p)" by (auto intro: task_errors_module_deps)
    from errors_ok_fail_visit[OF assms(1) this] ModDeps Inl show ?thesis by simp
  next
    case (Inr d)
    with ModDeps errors_ok_settled[OF _ assms(1)] show ?thesis by simp
  qed
next
  case (ModInit p n d)
  show ?thesis
  proof (cases "func (init (n_moduleInit n)) d")
    case (Some cause)
    with assms(2) ModInit have "ModuleStartupFailed (n_moduleId n) p cause \<in> set (task_errors c p)"
      by (auto intro: task_errors_module_func)
    from errors_ok_fail_visit[OF _ this, of "s\<lparr>trace := trace s @ [ModuleInitRejected p (n_moduleId n)]\<rparr>"]
      errors_ok_settled[OF _ assms(1)] ModInit Some
    show ?thesis by simp
  next
    case None
    with ModInit errors_ok_settled[OF _ assms(1)] show ?thesis by (simp add: Let_def)
  qed
next
  case (PlugDeps p pluginInit)
  show ?thesis
  proof (cases "getInitDeps (c_extensionPoints c) (c_holder c) (deps (init pluginInit)) p")
    case (Inl e)
    with assms(2) PlugDeps have "e \<in> set (task_errors c p)" by (auto intro: task_errors_plugin_deps)
    from errors_ok_reject[OF assms(1) this] PlugDeps Inl show ?thesis by simp
  next
    case (Inr d)
    with PlugDeps errors_ok_settled[OF _ assms(1)] show ?thesis by simp
  qed
next
  case (PlugInit p pluginInit d)
  show ?thesis
  proof (cases "func (init pluginInit) d")
    case (Some cause)
    with assms(2) PlugInit have "PluginStartupFailed p cause \<in> set (task_errors c p)"
      by (auto intro: task_errors_plugin_func)
    from errors_ok_reject[OF _ this, of "s\<lparr>trace := trace s @ [PluginInitRejected p]\<rparr>"]
      errors_ok_settled[OF _ assms(1)] PlugInit Some
    show ?thesis by simp
  next
    case None
    with PlugInit errors_ok_settled[OF _ assms(1)] show ?thesis by simp
  qed
next
  case (PlugLifecycle p)
  show ?thesis
  proof (cases "getPluginLifecycleImpl (c_holder c) p")
    case (Inl e)
    then have "e \<in> set (task_errors c p)" by (rule task_errors_lifecycle)
    from errors_ok_reject[OF assms(1) this] PlugLifecycle Inl show ?thesis by simp
  next
    case (Inr i)
    with PlugLifecycle errors_ok_settled[OF _ assms(1)] show ?thesis by simp
  qed
next
  case (PlugStartup p)
  show ?thesis
  proof (cases "c_pluginStartup c p")
    case (Some e)
    then have "e \<in> set (task_errors c p)" by (rule task_errors_startup)
    from errors_ok_reject[OF _ this, of "s\<lparr>trace := trace s @ [PluginStartupRejected p]\<rparr>"]
      errors_ok_settled[OF _ assms(1)] PlugStartup Some
    show ?thesis by simp
  next
    case None
    with PlugStartup assms(1) show ?thesis by (auto simp: errors_ok_def)
  qed
qed

lemma errors_ok_step: "inv c s \<Longrightarrow> errors_ok c s \<Longrightarrow> errors_ok c (step c k s)"
proof (cases "inflight s = []")
  case True
  assume "errors_ok c s"
  with True show ?thesis by (simp add: step_def)
next
  case False
  assume i: "inv c s" and e: "errors_ok c s"
  from False obtain pre op post where eq: "inflight s = pre @ op # post"
    and st: "step c k s = complete c op (s\<lparr>inflight := pre @ post\<rparr>)"
    by (rule step_cases)
  have "errors_ok c (s\<lparr>inflight := pre @ post\<rparr>)" using e by (simp add: errors_ok_def)
  from errors_ok_complete[OF this inv_remove(2)[OF i eq]] st show ?thesis by simp
qed

lemma errors_ok_run: "inv c s \<Longrightarrow> errors_ok c s \<Longrightarrow> errors_ok c (run c ks s)"
  by (induction ks arbitrary: s) (simp_all add: errors_ok_step inv_step)

lemma errors_ok_drain: "inv c s \<Longrightarrow> errors_ok c s \<Longrightarrow> errors_ok c (drain n c s)"
  by (induction n arbitrary: s) (simp_all add: errors_ok_step inv_step)

lemma errors_ok_advance: "errors_ok c s \<Longrightarrow> errors_ok c (advance c p s)"
  by (rule errors_ok_settled[of _ s]) (simp_all add: advance_def Let_def)

lemma errors_ok_start_plugin:
  assumes "errors_ok c s"
  shows "errors_ok c (start_plugin c p s)"
proof (cases "detectCircularDependency (nodes_of c p)")
  case (Some circular)
  then have "CircularModuleDependency p (map n_moduleId circular) \<in> set (task_errors c p)"
    by (rule task_errors_cycle)
  from errors_ok_reject[OF assms this] Some show ?thesis by (simp add: start_plugin_def)
next
  case None
  have "errors_ok c (s\<lparr>waiting := waiting s @ map (Pair p) (nodes_of c p)\<rparr>)"
    using assms by (simp add: errors_ok_def)
  from errors_ok_advance[OF this] None show ?thesis by (simp add: start_plugin_def)
qed

lemma errors_ok_fold_start: "errors_ok c s \<Longrightarrow> errors_ok c (fold (start_plugin c) ps s)"
  by (induction ps arbitrary: s) (simp_all add: errors_ok_start_plugin)

lemma errors_ok_initPlugins: "errors_ok c (initPlugins c ps sched)"
proof -
  have 0: "errors_ok c empty_sched" by (simp add: errors_ok_def empty_sched_def)
  show ?thesis
    by (simp add: initPlugins_def Let_def errors_ok_drain errors_ok_run errors_ok_fold_start
        inv_run inv_fold_start inv_empty 0)
qed

lemma promise_all_error:
  assumes "promise_all ps (initPlugins c ps sched) = Rejected e"
  shows "\<exists>p. e \<in> set (task_errors c p) \<and> p \<in> fst ` set (settled (initPlugins c ps sched))"
proof -
  let ?s = "initPlugins c ps sched"
  from assms obtain es where "List.map_filter snd (settled ?s) = e # es"
    by (auto simp: promise_all_def split: list.splits if_splits)
  then have "e \<in> set (List.map_filter snd (settled ?s))" by simp
  then obtain p where p: "(p, Some e) \<in> set (settled ?s)"
    by (auto simp: List.map_filter_def)
  with errors_ok_initPlugins[of c ps sched] have "e \<in> set (task_errors c p)"
    by (auto simp: errors_ok_def)
  with p show ?thesis by force
qed


lemma within_complete:
  assumes "within P s" and "op_plugin op \<in> P"
  shows "within P (complete c op s)"
  using assms
  by (cases op)
     (auto simp: within_def reject_def fail_visit_def advance_def plugin_stage_def Let_def
           split: sum.splits option.splits if_splits)

lemma within_step: "within P s \<Longrightarrow> within P (step c k s)"
proof (cases "inflight s = []")
  case True
  assume "within P s"
  with True show ?thesis by (simp add: step_def)
next
  case False
  assume w: "within P s"
  from False obtain pre op post where eq: "inflight s = pre @ op # post"
    and st: "step c k s = complete c op (s\<lparr>inflight := pre @ post\<rparr>)"
    by (rule step_cases)
  from w eq have "within P (s\<lparr>inflight := pre @ post\<rparr>)" and "op_plugin op \<in> P"
    by (auto simp: within_def)
  from within_complete[OF this] st show ?thesis by simp
qed

lemma within_run: "within P s \<Longrightarrow> within P (run c ks s)"
  by (induction ks arbitrary: s) (simp_all add: within_step)

lemma within_drain: "within P s \<Longrightarrow> within P (drain n c s)"
  by (induction n arbitrary: s) (simp_all add: within_step)

lemma within_start_plugin: "within P s \<Longrightarrow> p \<in> P \<Longrightarrow> within P (start_plugin c p s)"
  by (auto simp: within_def start_plugin_def reject_def advance_def plugin_stage_def Let_def
           split: option.splits if_splits)

lemma within_fold_start:
  "within P s \<Longrightarrow> set ps \<subseteq> P \<Longrightarrow> within P (fold (start_plugin c) ps s)"
  by (induction ps arbitrary: s) (simp_all add: within_start_plugin)

lemma within_initPlugins: "within (set ps) (initPlugins c ps sched)"
proof -
  have "within (set ps) empty_sched" by (simp add: within_def empty_sched_def)
  then show ?thesis
    by (simp add: initPlugins_def Let_def within_drain within_run within_fold_start)
qed

lemma promise_all_task_error:
  assumes "promise_all ps (initPlugins c ps sched) = Rejected e"
  shows "\<exists>p \<in> set ps. e \<in> set (task_errors c p)"
proof -
  from promise_all_error[OF assms] obtain p where
    "e \<in> set (task_errors c p)" "p \<in> fst ` set (settled (initPlugins c ps sched))" by blast
  with within_initPlugins[of ps c sched] show ?thesis by (auto simp: within_def)
qed

lemma start_error:
  assumes "startPromise b = None" and "start_index en b = Some ix"
    and "promise_all (allPluginIds ix) (initPlugins (start_ctx en b ix) (allPluginIds ix) sched) \<noteq> Fulfilled"
  shows "\<exists>e \<in> set (start_errors en b ix). fst (start en sched b) = Rejected e"
proof -
  let ?s = "initPlugins (start_ctx en b ix) (allPluginIds ix) sched"
  from assms(3) promise_all_settles[of "allPluginIds ix" "start_ctx en b ix" sched]
  obtain e where e: "promise_all (allPluginIds ix) ?s = Rejected e"
    by (cases "promise_all (allPluginIds ix) ?s") auto
  from promise_all_task_error[OF e] have "e \<in> set (start_errors en b ix)"
    by (auto simp: start_errors_def)
  with start_outcome(1)[OF assms(1,2) e] show ?thesis by blast
qed

section \<open>stop\<close>

text \<open>
  Claim C4, as amended. Calling \<open>stop\<close> before \<open>start\<close> was ever called is a no-op
  that resolves successfully. Once \<open>start\<close> has been called and its promise has
  settled, there is no shared completion future: every call of \<open>stop\<close> resolves the
  root lifecycle service and invokes its \<open>shutdown()\<close> itself, so two calls invoke it
  twice, and each call resolves or rejects as its own invocation does.
\<close>

theorem stop_each_call_shuts_down:
  "(startPromise b = None \<longrightarrow> stop b = (Fulfilled, b)) \<and>
   (\<forall>r i. startPromise b = Some r \<and> r \<noteq> Pending \<and> getRootLifecycleImpl b = Inr i \<longrightarrow>
      events (snd (stop b)) = events b @ [RootShutdownInvoked] \<and>
      events (snd (stop (snd (stop b)))) = events b @ [RootShutdownInvoked, RootShutdownInvoked] \<and>
      fst (stop b) = (if rootShutdownInvoked b then Rejected LifecycleAlreadyInvoked else Fulfilled) \<and>
      fst (stop (snd (stop b))) = Rejected LifecycleAlreadyInvoked)"
  unfolding stop_def root_shutdown_def getRootLifecycleImpl_def
  by (auto simp: Let_def split: option.splits outcome.splits sum.splits impl.splits)

text \<open>The theorem at the initializer with the default services, before and after \<open>start\<close>.\<close>

theorem stop_each_call_shuts_down_witness:
  "startPromise (snd (start example_env [] (BackendInitializer default_factories))) = Some Fulfilled \<and>
   stop (BackendInitializer default_factories) = (Fulfilled, BackendInitializer default_factories) \<and>
   fst (stop (snd (start example_env [] (BackendInitializer default_factories)))) = Fulfilled \<and>
   events (snd (stop (snd (stop (snd (start example_env [] (BackendInitializer default_factories)))))))
     = [RootStartupInvoked, RootStartupCompleted, RootShutdownInvoked, RootShutdownInvoked]"
proof -
  let ?b = "snd (start example_env [] (BackendInitializer default_factories))"
  have sp: "startPromise ?b = Some Fulfilled" by code_simp
  have rl: "getRootLifecycleImpl ?b = Inr BackendLifecycleImpl" by code_simp
  have ev: "events ?b = [RootStartupInvoked, RootStartupCompleted]" by code_simp
  have sh: "rootShutdownInvoked ?b = False" by code_simp
  have n: "startPromise (BackendInitializer default_factories) = None" by code_simp
  from stop_each_call_shuts_down[of ?b] sp rl ev sh
    stop_each_call_shuts_down[of "BackendInitializer default_factories"] n
  show ?thesis by simp
qed

text \<open>
  Claim C4 as stated fails: after a successful \<open>start\<close>, the first \<open>stop\<close> resolves,
  the second is rejected, and \<open>shutdown()\<close> has been invoked twice.
\<close>

theorem stop_idempotent_counterexample:
  "fst (stop (snd (start example_env [] (BackendInitializer default_factories)))) = Fulfilled \<and>
   fst (stop (snd (stop (snd (start example_env [] (BackendInitializer default_factories))))))
     = Rejected LifecycleAlreadyInvoked \<and>
   count_list (events (snd (stop (snd (stop (snd (start example_env []
      (BackendInitializer default_factories)))))))) RootShutdownInvoked = 2"
  by code_simp

section \<open>A module depending on an extension point\<close>

text \<open>
  Claim C1, as amended. Let a module \<open>m\<close> of plugin \<open>P\<close> list in its \<open>init.deps\<close> an
  extension point recorded in the extension-point table for plugin \<open>Q\<close>. If
  \<open>P \<noteq> Q\<close>, the resolution of the dependencies of \<open>m\<close> never succeeds, and it fails
  with \<open>ExtensionPointOwnershipViolation\<close> unless a service lookup for one of the
  dependencies throws; under every schedule the \<open>init.func\<close> of \<open>m\<close> is never invoked
  and \<open>start\<close> is rejected, with one of the errors the plugin tasks can fail with: so
  with the ownership violation when this is the only such error.
  If \<open>P = Q\<close>, a successful resolution binds the dependency name to the recorded
  implementation.
\<close>

theorem foreign_extension_point_in_module:
  assumes "start_index en b = Some ix" and "map_of (moduleInits ix) p = Some ms"
    and "(m, mi) \<in> set ms" and "(name, r) \<in> set (deps (init mi))"
    and "ix_extensionPoints ix (ref_id r) = Some ep"
  shows "(ep_pluginId ep \<noteq> p \<longrightarrow>
            (\<exists>e. getInitDeps (ix_extensionPoints ix) (registry en b) (deps (init mi)) p = Inl e) \<and>
            ((\<forall>(n', r') \<in> set (deps (init mi)). \<not> throws (ix_extensionPoints ix) (registry en b) p r') \<longrightarrow>
               (\<exists>q. q \<noteq> p \<and>
                  getInitDeps (ix_extensionPoints ix) (registry en b) (deps (init mi)) p =
                    Inl (ExtensionPointOwnershipViolation q p))) \<and>
            ModuleInitInvoked p m \<notin> set (observed en sched b) \<and>
            (\<exists>e. fst (start en sched b) = Rejected e) \<and>
            (startPromise b = None \<longrightarrow>
               (\<exists>e \<in> set (start_errors en b ix). fst (start en sched b) = Rejected e))) \<and>
         (ep_pluginId ep = p \<longrightarrow>
            (\<forall>result. distinct (map fst (deps (init mi))) \<and>
               getInitDeps (ix_extensionPoints ix) (registry en b) (deps (init mi)) p = Inr result \<longrightarrow>
               map_of result name = Some (ep_impl ep)))"
proof -
  let ?eps = "ix_extensionPoints ix"
  let ?h = "registry en b"
  let ?c = "start_ctx en b ix"
  let ?s = "initPlugins ?c (allPluginIds ix) sched"
  have own: "map_of result name = Some (ep_impl ep)"
    if "distinct (map fst (deps (init mi)))" and "getInitDeps ?eps ?h (deps (init mi)) p = Inr result"
    for result
    using getInitDeps_binds_own[OF that(2) that(1) assms(4,5)] .
  have other: "(\<exists>e. getInitDeps ?eps ?h (deps (init mi)) p = Inl e) \<and>
            ((\<forall>(n', r') \<in> set (deps (init mi)). \<not> throws ?eps ?h p r') \<longrightarrow>
               (\<exists>q. q \<noteq> p \<and> getInitDeps ?eps ?h (deps (init mi)) p =
                    Inl (ExtensionPointOwnershipViolation q p))) \<and>
            ModuleInitInvoked p m \<notin> set (observed en sched b) \<and>
            (\<exists>e. fst (start en sched b) = Rejected e) \<and>
            (startPromise b = None \<longrightarrow>
               (\<exists>e \<in> set (start_errors en b ix). fst (start en sched b) = Rejected e))"
    if ne: "ep_pluginId ep \<noteq> p"
  proof -
    from ne assms(5) have fo: "foreign ?eps p r" by (simp add: foreign_def)
    note g = getInitDeps_foreign[OF assms(4) fo, of ?h]
    have wf: "wf_trace ?c (trace ?s)" by (rule wf_initPlugins)
    have nodes: "nodes_of ?c p = module_nodes ms" by (rule nodes_of_start_ctx[OF assms(2)])
    have dist: "distinct (map fst ms)"
      using start_index_distinct[OF assms(1)] assms(2) by (simp add: modules_distinct_def)
    have never: "ModuleInitInvoked p m \<notin> set (trace ?s)"
    proof
      assume "ModuleInitInvoked p m \<in> set (trace ?s)"
      from wf_trace_enabled[OF wf this] obtain n d where
        n: "n \<in> set (nodes_of ?c p)" "n_moduleId n = m"
        and ok: "getInitDeps ?eps ?h (deps (init (n_moduleInit n))) p = Inr d"
        by (auto simp: start_ctx_fields)
      from module_node_unique(3)[OF dist assms(3) n(1)[unfolded nodes] n(2)] ok g(1)
      show False by simp
    qed
    have nf: "promise_all (allPluginIds ix) ?s \<noteq> Fulfilled"
    proof
      assume f: "promise_all (allPluginIds ix) ?s = Fulfilled"
      have "p \<in> set (allPluginIds ix)" using assms(2) mem_allPluginIds by blast
      from fulfilled_plugin_started[OF f this]
      have "PluginStartupInvoked p \<in> set (trace ?s)" .
      from wf_trace_enabled[OF wf this]
      have all: "\<forall>n \<in> set (nodes_of ?c p). ModuleInitCompleted p (n_moduleId n) \<in> set (trace ?s)"
        by simp
      from module_node_mem[OF assms(3)] nodes all
      have "ModuleInitCompleted p m \<in> set (trace ?s)" by fastforce
      from wf_trace_enabled[OF wf this] never show False by simp
    qed
    have obs: "ModuleInitInvoked p m \<notin> set (observed en sched b)"
    proof (cases "startPromise b = None")
      case False
      then show ?thesis by (simp add: observed_started)
    next
      case True
      from start_observed[OF True assms(1), of sched] obtain rs where
        "observed en sched b = trace ?s @ rs"
        "set rs \<subseteq> {RootStartupInvoked, RootStartupCompleted, RootStartupRejected}" by blast
      with never show ?thesis by auto
    qed
    have st: "fst (start en sched b) \<noteq> Fulfilled"
    proof (cases "startPromise b = None")
      case False
      then show ?thesis by (simp add: start_def)
    next
      case True
      from start_outcome(2)[OF True assms(1) nf] show ?thesis .
    qed
    have only: "\<exists>e \<in> set (start_errors en b ix). fst (start en sched b) = Rejected e"
      if "startPromise b = None"
      using start_error[OF that assms(1) nf] .
    from g obs start_rejected[OF st] only show ?thesis by blast
  qed
  from own other show ?thesis by blast
qed


text \<open>
  The theorem where plugin \<open>q\<close> registers the extension point \<open>ext.q\<close> and a module
  lists it in its dependencies: a module of plugin \<open>p\<close>, and a module of \<open>q\<close> itself.
\<close>

theorem foreign_extension_point_in_module_witness:
  "fst (start example_env [] foreign_module_backend) =
     Rejected (ExtensionPointOwnershipViolation ''q'' ''p'') \<and>
   start_errors example_env foreign_module_backend
     (the (start_index example_env foreign_module_backend)) =
     [ExtensionPointOwnershipViolation ''q'' ''p''] \<and>
   ModuleInitInvoked ''p'' ''m'' \<notin> set (observed example_env [] foreign_module_backend) \<and>
   (\<exists>e. getInitDeps (ix_extensionPoints (the (start_index example_env foreign_module_backend)))
           (registry example_env foreign_module_backend) [(''ext'', ExtensionPoint 10 ''ext.q'')] ''p'' =
         Inl e) \<and>
   fst (start example_env [] own_module_backend) = Fulfilled \<and>
   getInitDeps (ix_extensionPoints (the (start_index example_env own_module_backend)))
     (registry example_env own_module_backend) [(''ext'', ExtensionPoint 10 ''ext.q'')] ''q'' =
     Inr [(''ext'', OtherImpl 1)]"
proof -
  let ?b = foreign_module_backend
  let ?ix = "the (start_index example_env ?b)"
  let ?ms = "the (map_of (moduleInits ?ix) ''p'')"
  let ?mi = "the (map_of ?ms ''m'')"
  let ?ep = "the (ix_extensionPoints ?ix ''ext.q'')"
  have "start_index example_env ?b \<noteq> None" by code_simp
  then have ix: "start_index example_env ?b = Some ?ix" by (rule Some_the)
  have "map_of (moduleInits ?ix) ''p'' \<noteq> None" by code_simp
  then have ms: "map_of (moduleInits ?ix) ''p'' = Some ?ms" by (rule Some_the)
  have "map_of ?ms ''m'' \<noteq> None" by code_simp
  then have "map_of ?ms ''m'' = Some ?mi" by (rule Some_the)
  then have mi: "(''m'', ?mi) \<in> set ?ms" by (rule map_of_SomeD)
  have ds: "deps (init ?mi) = [(''ext'', ExtensionPoint 10 ''ext.q'')]" by code_simp
  then have d: "(''ext'', ExtensionPoint 10 ''ext.q'') \<in> set (deps (init ?mi))" by simp
  have "ix_extensionPoints ?ix ''ext.q'' \<noteq> None" by code_simp
  then have "ix_extensionPoints ?ix ''ext.q'' = Some ?ep" by (rule Some_the)
  then have ep: "ix_extensionPoints ?ix (ref_id (ExtensionPoint 10 ''ext.q'')) = Some ?ep" by simp
  have ne: "ep_pluginId ?ep \<noteq> ''p''" by code_simp
  have sp: "startPromise ?b = None" by code_simp
  have se: "start_errors example_env ?b ?ix = [ExtensionPointOwnershipViolation ''q'' ''p'']"
    by code_simp
  let ?b2 = own_module_backend
  let ?ix2 = "the (start_index example_env ?b2)"
  let ?ms2 = "the (map_of (moduleInits ?ix2) ''q'')"
  let ?mi2 = "the (map_of ?ms2 ''m'')"
  let ?ep2 = "the (ix_extensionPoints ?ix2 ''ext.q'')"
  have "start_index example_env ?b2 \<noteq> None" by code_simp
  then have ix2: "start_index example_env ?b2 = Some ?ix2" by (rule Some_the)
  have "map_of (moduleInits ?ix2) ''q'' \<noteq> None" by code_simp
  then have ms2: "map_of (moduleInits ?ix2) ''q'' = Some ?ms2" by (rule Some_the)
  have "map_of ?ms2 ''m'' \<noteq> None" by code_simp
  then have "map_of ?ms2 ''m'' = Some ?mi2" by (rule Some_the)
  then have mi2: "(''m'', ?mi2) \<in> set ?ms2" by (rule map_of_SomeD)
  have ds2: "deps (init ?mi2) = [(''ext'', ExtensionPoint 10 ''ext.q'')]" by code_simp
  then have d2: "(''ext'', ExtensionPoint 10 ''ext.q'') \<in> set (deps (init ?mi2))" by simp
  have "ix_extensionPoints ?ix2 ''ext.q'' \<noteq> None" by code_simp
  then have "ix_extensionPoints ?ix2 ''ext.q'' = Some ?ep2" by (rule Some_the)
  then have ep2: "ix_extensionPoints ?ix2 (ref_id (ExtensionPoint 10 ''ext.q'')) = Some ?ep2" by simp
  have eq2: "ep_pluginId ?ep2 = ''q''" by code_simp
  have im2: "ep_impl ?ep2 = OtherImpl 1" by code_simp
  have f2: "fst (start example_env [] ?b2) = Fulfilled" by code_simp
  have g2: "getInitDeps (ix_extensionPoints ?ix2) (registry example_env ?b2)
              [(''ext'', ExtensionPoint 10 ''ext.q'')] ''q'' = Inr [(''ext'', OtherImpl 1)]"
    by code_simp
  from foreign_extension_point_in_module[OF ix ms mi d ep, of "[]"] ne ds sp se
  have a: "ModuleInitInvoked ''p'' ''m'' \<notin> set (observed example_env [] ?b) \<and>
     (\<exists>e. getInitDeps (ix_extensionPoints ?ix) (registry example_env ?b)
             [(''ext'', ExtensionPoint 10 ''ext.q'')] ''p'' = Inl e) \<and>
     fst (start example_env [] ?b) = Rejected (ExtensionPointOwnershipViolation ''q'' ''p'')"
    by simp
  from foreign_extension_point_in_module[OF ix2 ms2 mi2 d2 ep2, of "[]"] eq2 ds2 g2 im2
  have "map_of [(''ext'', OtherImpl 1)] ''ext'' = Some (OtherImpl 1)" by simp
  with a se f2 g2 show ?thesis by simp
qed


text \<open>
  Claim C1 as stated fails: the module of \<open>p\<close> lists a service whose factory throws
  before the extension point of \<open>q\<close>; the lookup rejects first, and \<open>start\<close> fails
  with that error, not with the ownership violation.
\<close>

theorem foreign_extension_point_in_module_counterexample:
  "map_option ep_pluginId
     (extensionPoints (snd (start broken_env [] broken_dep_backend)) ''ext.q'') = Some ''q'' \<and>
   map (\<lambda>(m, mi). (m, map snd (deps (init mi))))
     (the (map_of (moduleInits (the (start_index broken_env broken_dep_backend))) ''p'')) =
     [(''m'', [ServiceRef 20 ''svc.broken'' PluginScope, ExtensionPoint 10 ''ext.q''])] \<and>
   fst (start broken_env [] broken_dep_backend) = Rejected (External ''factory failed'')"
  by code_simp

section \<open>Order of initialization\<close>

text \<open>
  Claim C2. During \<open>start\<close>, whatever the order in which the asynchronous operations
  settle: for every plugin id, the \<open>init.func\<close> of every module of the plugin
  completes before the \<open>init.func\<close> of the plugin is invoked; the \<open>init.func\<close> of the
  plugin completes before the \<open>startup()\<close> of the plugin's lifecycle is invoked; and the
  root lifecycle \<open>startup()\<close> is invoked only after the per-plugin \<open>startup()\<close> of every
  plugin has completed.
\<close>

theorem start_order:
  assumes "start_index en b = Some ix"
  shows "(\<forall>p ms m. map_of (moduleInits ix) p = Some ms \<and> m \<in> fst ` set ms \<longrightarrow>
            precedes (ModuleInitCompleted p m) (PluginInitInvoked p) (observed en sched b)) \<and>
         (\<forall>p. map_of (pluginInits ix) p \<noteq> None \<longrightarrow>
            precedes (PluginInitCompleted p) (PluginStartupInvoked p) (observed en sched b)) \<and>
         (\<forall>p \<in> set (allPluginIds ix).
            precedes (PluginStartupCompleted p) RootStartupInvoked (observed en sched b))"
proof (cases "startPromise b = None")
  case False
  then show ?thesis by (simp add: observed_started)
next
  case True
  let ?c = "start_ctx en b ix"
  let ?s = "initPlugins ?c (allPluginIds ix) sched"
  from start_observed[OF True assms, of sched] obtain rs where
    obs: "observed en sched b = trace ?s @ rs"
    and rs: "set rs \<subseteq> {RootStartupInvoked, RootStartupCompleted, RootStartupRejected}"
    and ful: "rs \<noteq> [] \<longrightarrow> promise_all (allPluginIds ix) ?s = Fulfilled"
    by blast
  have wf: "wf_trace ?c (trace ?s)" by (rule wf_initPlugins)
  have a: "precedes (ModuleInitCompleted p m) (PluginInitInvoked p) (observed en sched b)"
    if ms: "map_of (moduleInits ix) p = Some ms" and m: "m \<in> fst ` set ms" for p ms m
  proof -
    from module_node_exists[OF m] nodes_of_start_ctx[OF ms, of en b]
    obtain n where n: "n \<in> set (nodes_of ?c p)" "n_moduleId n = m" by auto
    have "precedes (ModuleInitCompleted p m) (PluginInitInvoked p) (trace ?s)"
    proof (rule wf_trace_precedes[OF wf])
      fix pre assume "enabled ?c pre (PluginInitInvoked p)"
      with n show "ModuleInitCompleted p m \<in> set pre" by auto
    qed
    moreover have "PluginInitInvoked p \<notin> set rs" using rs by auto
    ultimately show ?thesis unfolding obs by (simp add: precedes_append)
  qed
  have b: "precedes (PluginInitCompleted p) (PluginStartupInvoked p) (observed en sched b)"
    if pl: "map_of (pluginInits ix) p \<noteq> None" for p
  proof -
    have "precedes (PluginInitCompleted p) (PluginStartupInvoked p) (trace ?s)"
    proof (rule wf_trace_precedes[OF wf])
      fix pre assume "enabled ?c pre (PluginStartupInvoked p)"
      with pl show "PluginInitCompleted p \<in> set pre" by (auto simp: pluginInits_start_ctx)
    qed
    moreover have "PluginStartupInvoked p \<notin> set rs" using rs by auto
    ultimately show ?thesis unfolding obs by (simp add: precedes_append)
  qed
  have c: "precedes (PluginStartupCompleted p) RootStartupInvoked (observed en sched b)"
    if p: "p \<in> set (allPluginIds ix)" for p
  proof -
    have "precedes (PluginStartupCompleted p) RootStartupInvoked (trace ?s)"
      using wf_trace_no_root(1)[OF wf] by (rule precedes_absent)
    moreover have "RootStartupInvoked \<notin> set rs \<or> PluginStartupCompleted p \<in> set (trace ?s)"
    proof (cases "rs = []")
      case True
      then show ?thesis by simp
    next
      case False
      with ful have "promise_all (allPluginIds ix) ?s = Fulfilled" by simp
      from settled_completed[OF promise_all_Fulfilled[OF this p]] show ?thesis by simp
    qed
    ultimately show ?thesis unfolding obs by (rule precedes_append)
  qed
  from a b c show ?thesis by blast
qed

text \<open>
  The theorem at two plugins, \<open>B\<close> with a module providing an extension point and a
  module consuming it, under a schedule that interleaves the two plugins.
\<close>

theorem start_order_witness:
  "observed example_env [3, 1, 0, 2, 1] two_plugin_backend =
     [ModuleInitInvoked ''B'' ''B2'', ModuleInitCompleted ''B'' ''B2'',
      PluginInitInvoked ''A'', ModuleInitInvoked ''B'' ''B1'',
      ModuleInitCompleted ''B'' ''B1'', PluginInitCompleted ''A'',
      PluginInitInvoked ''B'', PluginStartupInvoked ''A'',
      PluginInitCompleted ''B'', PluginStartupCompleted ''A'',
      PluginStartupInvoked ''B'', PluginStartupCompleted ''B'',
      RootStartupInvoked, RootStartupCompleted] \<and>
   precedes (ModuleInitCompleted ''B'' ''B1'') (PluginInitInvoked ''B'')
     (observed example_env [3, 1, 0, 2, 1] two_plugin_backend) \<and>
   precedes (PluginInitCompleted ''B'') (PluginStartupInvoked ''B'')
     (observed example_env [3, 1, 0, 2, 1] two_plugin_backend) \<and>
   precedes (PluginStartupCompleted ''A'') RootStartupInvoked
     (observed example_env [3, 1, 0, 2, 1] two_plugin_backend)"
proof -
  let ?ix = "the (start_index example_env two_plugin_backend)"
  let ?ms = "the (map_of (moduleInits ?ix) ''B'')"
  have "start_index example_env two_plugin_backend \<noteq> None" by code_simp
  then have ix: "start_index example_env two_plugin_backend = Some ?ix" by (rule Some_the)
  have "map_of (moduleInits ?ix) ''B'' \<noteq> None" by code_simp
  then have ms: "map_of (moduleInits ?ix) ''B'' = Some ?ms" by (rule Some_the)
  have m: "''B1'' \<in> fst ` set ?ms" by code_simp
  have pl: "map_of (pluginInits ?ix) ''B'' \<noteq> None" by code_simp
  have a: "''A'' \<in> set (allPluginIds ?ix)" by code_simp
  have obs: "observed example_env [3, 1, 0, 2, 1] two_plugin_backend =
     [ModuleInitInvoked ''B'' ''B2'', ModuleInitCompleted ''B'' ''B2'',
      PluginInitInvoked ''A'', ModuleInitInvoked ''B'' ''B1'',
      ModuleInitCompleted ''B'' ''B1'', PluginInitCompleted ''A'',
      PluginInitInvoked ''B'', PluginStartupInvoked ''A'',
      PluginInitCompleted ''B'', PluginStartupCompleted ''A'',
      PluginStartupInvoked ''B'', PluginStartupCompleted ''B'',
      RootStartupInvoked, RootStartupCompleted]" by code_simp
  from start_order[OF ix, of "[3, 1, 0, 2, 1]"] ms m pl a obs show ?thesis by blast
qed

section \<open>The module graph\<close>



section \<open>Modules without their plugin\<close>

text \<open>
  Claim C8. For a plugin id with registered modules and no plugin registration, the
  plugin init step is skipped under every schedule. When no step of the task of this
  plugin id can fail (\<open>task_errors\<close> is empty: its modules have no cycle, their
  dependencies resolve and their \<open>init.func\<close> resolve, the lifecycle service is found
  and its \<open>startup()\<close> resolves), \<open>start\<close> invokes and completes the \<open>init.func\<close> of
  each of these modules and the per-plugin lifecycle \<open>startup()\<close> of that plugin id,
  under every schedule and whatever happens to the other plugins; and so has every
  \<open>start\<close> that succeeds.
\<close>

theorem modules_without_plugin:
  assumes "start_index en b = Some ix" and "map_of (moduleInits ix) p = Some ms"
    and "map_of (pluginInits ix) p = None"
  shows "PluginInitInvoked p \<notin> set (observed en sched b) \<and>
         ((startPromise b = None \<and> task_errors (start_ctx en b ix) p = []) \<or>
          fst (start en sched b) = Fulfilled \<longrightarrow>
            (\<forall>m \<in> fst ` set ms.
                ModuleInitInvoked p m \<in> set (observed en sched b) \<and>
                ModuleInitCompleted p m \<in> set (observed en sched b)) \<and>
            PluginStartupInvoked p \<in> set (observed en sched b) \<and>
            PluginStartupCompleted p \<in> set (observed en sched b))"
proof (cases "startPromise b = None")
  case False
  then show ?thesis by (auto simp: observed_started start_def)
next
  case True
  let ?c = "start_ctx en b ix"
  let ?s = "initPlugins ?c (allPluginIds ix) sched"
  from start_observed[OF True assms(1), of sched] obtain rs where
    obs: "observed en sched b = trace ?s @ rs"
    and rs: "set rs \<subseteq> {RootStartupInvoked, RootStartupCompleted, RootStartupRejected}"
    and ful: "fst (start en sched b) = Fulfilled \<longrightarrow> promise_all (allPluginIds ix) ?s = Fulfilled"
    by blast
  have wf: "wf_trace ?c (trace ?s)" by (rule wf_initPlugins)
  have mem: "p \<in> set (allPluginIds ix)" using assms(2) mem_allPluginIds by blast
  have no: "PluginInitInvoked p \<notin> set (observed en sched b)"
  proof
    assume "PluginInitInvoked p \<in> set (observed en sched b)"
    with obs rs have "PluginInitInvoked p \<in> set (trace ?s)" by auto
    from wf_trace_enabled[OF wf this] assms(3) show False
      by (simp add: pluginInits_start_ctx)
  qed
  have ok: "(p, None) \<in> set (settled ?s)"
    if "(startPromise b = None \<and> task_errors ?c p = []) \<or> fst (start en sched b) = Fulfilled"
  proof (cases "fst (start en sched b) = Fulfilled")
    case True
    with ful have "promise_all (allPluginIds ix) ?s = Fulfilled" by simp
    from promise_all_Fulfilled[OF this mem] show ?thesis .
  next
    case False
    with that have te: "task_errors ?c p = []" by simp
    from initPlugins_settles[OF mem, of ?c sched] obtain r where r: "(p, r) \<in> set (settled ?s)"
      by auto
    show ?thesis
    proof (cases r)
      case None
      with r show ?thesis by simp
    next
      case (Some e)
      with r errors_ok_initPlugins[of ?c "allPluginIds ix" sched]
      have "e \<in> set (task_errors ?c p)" by (auto simp: errors_ok_def)
      with te show ?thesis by simp
    qed
  qed
  have yes: "(\<forall>m \<in> fst ` set ms.
                ModuleInitInvoked p m \<in> set (trace ?s) \<and> ModuleInitCompleted p m \<in> set (trace ?s)) \<and>
            PluginStartupInvoked p \<in> set (trace ?s) \<and> PluginStartupCompleted p \<in> set (trace ?s)"
    if "(startPromise b = None \<and> task_errors ?c p = []) \<or> fst (start en sched b) = Fulfilled"
  proof -
    from settled_completed[OF ok[OF that]]
    have sc: "PluginStartupCompleted p \<in> set (trace ?s)" .
    from wf_trace_enabled[OF wf sc] have si: "PluginStartupInvoked p \<in> set (trace ?s)" by simp
    from wf_trace_enabled[OF wf si]
    have all: "\<forall>n \<in> set (nodes_of ?c p). ModuleInitCompleted p (n_moduleId n) \<in> set (trace ?s)"
      by simp
    have "ModuleInitInvoked p m \<in> set (trace ?s) \<and> ModuleInitCompleted p m \<in> set (trace ?s)"
      if m: "m \<in> fst ` set ms" for m
    proof -
      from module_node_exists[OF m] nodes_of_start_ctx[OF assms(2), of en b]
      obtain n where n: "n \<in> set (nodes_of ?c p)" "n_moduleId n = m" by auto
      with all have mc: "ModuleInitCompleted p m \<in> set (trace ?s)" by auto
      from wf_trace_enabled[OF wf mc] mc show ?thesis by simp
    qed
    with sc si show ?thesis by blast
  qed
  from no yes obs show ?thesis by auto
qed

text \<open>
  The theorem at a single module \<open>M\<close> registered for a plugin \<open>P\<close> that is not, where
  \<open>start\<close> succeeds; and at two modules \<open>M1\<close> and \<open>M2\<close> of \<open>P\<close>, of which \<open>M2\<close>
  consumes the extension point of \<open>M1\<close>, beside a plugin \<open>Q\<close> whose \<open>init.func\<close>
  rejects.
\<close>

theorem modules_without_plugin_witness:
  "fst (start example_env [] module_only_backend) = Fulfilled \<and>
   PluginInitInvoked ''P'' \<notin> set (observed example_env [] module_only_backend) \<and>
   ModuleInitInvoked ''P'' ''M'' \<in> set (observed example_env [] module_only_backend) \<and>
   ModuleInitCompleted ''P'' ''M'' \<in> set (observed example_env [] module_only_backend) \<and>
   PluginStartupInvoked ''P'' \<in> set (observed example_env [] module_only_backend) \<and>
   PluginStartupCompleted ''P'' \<in> set (observed example_env [] module_only_backend) \<and>
   task_errors (start_ctx example_env two_module_only_backend
     (the (start_index example_env two_module_only_backend))) ''P'' = [] \<and>
   PluginInitInvoked ''P'' \<notin> set (observed example_env [] two_module_only_backend) \<and>
   ModuleInitCompleted ''P'' ''M1'' \<in> set (observed example_env [] two_module_only_backend) \<and>
   ModuleInitCompleted ''P'' ''M2'' \<in> set (observed example_env [] two_module_only_backend) \<and>
   PluginStartupInvoked ''P'' \<in> set (observed example_env [] two_module_only_backend) \<and>
   PluginStartupCompleted ''P'' \<in> set (observed example_env [] two_module_only_backend)"
proof -
  let ?ix = "the (start_index example_env module_only_backend)"
  let ?ms = "the (map_of (moduleInits ?ix) ''P'')"
  have "start_index example_env module_only_backend \<noteq> None" by code_simp
  then have ix: "start_index example_env module_only_backend = Some ?ix" by (rule Some_the)
  have "map_of (moduleInits ?ix) ''P'' \<noteq> None" by code_simp
  then have ms: "map_of (moduleInits ?ix) ''P'' = Some ?ms" by (rule Some_the)
  have m: "''M'' \<in> fst ` set ?ms" by code_simp
  have pl: "map_of (pluginInits ?ix) ''P'' = None" by code_simp
  have f: "fst (start example_env [] module_only_backend) = Fulfilled" by code_simp
  from modules_without_plugin[OF ix ms pl, of "[]"] m f
  have a: "PluginInitInvoked ''P'' \<notin> set (observed example_env [] module_only_backend) \<and>
   ModuleInitInvoked ''P'' ''M'' \<in> set (observed example_env [] module_only_backend) \<and>
   ModuleInitCompleted ''P'' ''M'' \<in> set (observed example_env [] module_only_backend) \<and>
   PluginStartupInvoked ''P'' \<in> set (observed example_env [] module_only_backend) \<and>
   PluginStartupCompleted ''P'' \<in> set (observed example_env [] module_only_backend)" by blast
  let ?b2 = two_module_only_backend
  let ?ix2 = "the (start_index example_env ?b2)"
  let ?ms2 = "the (map_of (moduleInits ?ix2) ''P'')"
  have "start_index example_env ?b2 \<noteq> None" by code_simp
  then have ix2: "start_index example_env ?b2 = Some ?ix2" by (rule Some_the)
  have "map_of (moduleInits ?ix2) ''P'' \<noteq> None" by code_simp
  then have ms2: "map_of (moduleInits ?ix2) ''P'' = Some ?ms2" by (rule Some_the)
  have m1: "''M1'' \<in> fst ` set ?ms2" by code_simp
  have m2: "''M2'' \<in> fst ` set ?ms2" by code_simp
  have pl2: "map_of (pluginInits ?ix2) ''P'' = None" by code_simp
  have sp2: "startPromise ?b2 = None" by code_simp
  have te2: "task_errors (start_ctx example_env ?b2 ?ix2) ''P'' = []" by code_simp
  from modules_without_plugin[OF ix2 ms2 pl2, of "[]"] m1 m2 sp2 te2
  have b: "PluginInitInvoked ''P'' \<notin> set (observed example_env [] ?b2) \<and>
   ModuleInitCompleted ''P'' ''M1'' \<in> set (observed example_env [] ?b2) \<and>
   ModuleInitCompleted ''P'' ''M2'' \<in> set (observed example_env [] ?b2) \<and>
   PluginStartupInvoked ''P'' \<in> set (observed example_env [] ?b2) \<and>
   PluginStartupCompleted ''P'' \<in> set (observed example_env [] ?b2)" by blast
  from a b f te2 show ?thesis by simp
qed

section \<open>A plugin depending on an extension point\<close>

text \<open>
  Claim C10, as amended. The ownership check is the one of \<open>#getInitDeps\<close>, which also
  resolves the dependencies of a plugin. If the \<open>init.deps\<close> of plugin \<open>P\<close> reference
  an extension point recorded for another plugin, the resolution of these dependencies
  never succeeds, and it fails with the same \<open>ExtensionPointOwnershipViolation\<close> unless
  a service lookup for one of the dependencies throws; under every schedule the
  \<open>init.func\<close> of \<open>P\<close> is never invoked and \<open>start\<close> is rejected, with one of the
  errors the plugin tasks can fail with: so with the ownership violation when this
  is the only such error.
\<close>

theorem foreign_extension_point_in_plugin:
  assumes "start_index en b = Some ix" and "map_of (pluginInits ix) p = Some pluginInit"
    and "(name, r) \<in> set (deps (init pluginInit))"
    and "ix_extensionPoints ix (ref_id r) = Some ep" and "ep_pluginId ep \<noteq> p"
  shows "(\<exists>e. getInitDeps (ix_extensionPoints ix) (registry en b) (deps (init pluginInit)) p = Inl e) \<and>
         ((\<forall>(n', r') \<in> set (deps (init pluginInit)).
              \<not> throws (ix_extensionPoints ix) (registry en b) p r') \<longrightarrow>
            (\<exists>q. q \<noteq> p \<and>
               getInitDeps (ix_extensionPoints ix) (registry en b) (deps (init pluginInit)) p =
                 Inl (ExtensionPointOwnershipViolation q p))) \<and>
         PluginInitInvoked p \<notin> set (observed en sched b) \<and>
         (\<exists>e. fst (start en sched b) = Rejected e) \<and>
         (startPromise b = None \<longrightarrow>
            (\<exists>e \<in> set (start_errors en b ix). fst (start en sched b) = Rejected e))"
proof -
  let ?eps = "ix_extensionPoints ix"
  let ?h = "registry en b"
  let ?c = "start_ctx en b ix"
  let ?s = "initPlugins ?c (allPluginIds ix) sched"
  from assms(4,5) have fo: "foreign ?eps p r" by (simp add: foreign_def)
  note g = getInitDeps_foreign[OF assms(3) fo, of ?h]
  have wf: "wf_trace ?c (trace ?s)" by (rule wf_initPlugins)
  have never: "PluginInitInvoked p \<notin> set (trace ?s)"
  proof
    assume "PluginInitInvoked p \<in> set (trace ?s)"
    from wf_trace_enabled[OF wf this] assms(2) g(1) show False
      by (auto simp: start_ctx_fields pluginInits_start_ctx)
  qed
  have nf: "promise_all (allPluginIds ix) ?s \<noteq> Fulfilled"
  proof
    assume f: "promise_all (allPluginIds ix) ?s = Fulfilled"
    have "p \<in> set (allPluginIds ix)" using assms(2) mem_allPluginIds by blast
    from fulfilled_plugin_started[OF f this]
    have "PluginStartupInvoked p \<in> set (trace ?s)" .
    from wf_trace_enabled[OF wf this] assms(2)
    have "PluginInitCompleted p \<in> set (trace ?s)" by (simp add: pluginInits_start_ctx)
    from wf_trace_enabled[OF wf this] never show False by simp
  qed
  have obs: "PluginInitInvoked p \<notin> set (observed en sched b)"
  proof (cases "startPromise b = None")
    case False
    then show ?thesis by (simp add: observed_started)
  next
    case True
    from start_observed[OF True assms(1), of sched] obtain rs where
      "observed en sched b = trace ?s @ rs"
      "set rs \<subseteq> {RootStartupInvoked, RootStartupCompleted, RootStartupRejected}" by blast
    with never show ?thesis by auto
  qed
  have st: "fst (start en sched b) \<noteq> Fulfilled"
  proof (cases "startPromise b = None")
    case False
    then show ?thesis by (simp add: start_def)
  next
    case True
    from start_outcome(2)[OF True assms(1) nf] show ?thesis .
  qed
  have only: "\<exists>e \<in> set (start_errors en b ix). fst (start en sched b) = Rejected e"
    if "startPromise b = None"
    using start_error[OF that assms(1) nf] .
  from g obs start_rejected[OF st] only show ?thesis by blast
qed

text \<open>
  The theorem where plugin \<open>p\<close> lists the extension point \<open>ext.q\<close> of plugin \<open>q\<close>.
\<close>

theorem foreign_extension_point_in_plugin_witness:
  "fst (start example_env [] foreign_plugin_backend) =
     Rejected (ExtensionPointOwnershipViolation ''q'' ''p'') \<and>
   start_errors example_env foreign_plugin_backend
     (the (start_index example_env foreign_plugin_backend)) =
     [ExtensionPointOwnershipViolation ''q'' ''p''] \<and>
   PluginInitInvoked ''p'' \<notin> set (observed example_env [] foreign_plugin_backend) \<and>
   (\<exists>e. getInitDeps (ix_extensionPoints (the (start_index example_env foreign_plugin_backend)))
           (registry example_env foreign_plugin_backend) [(''ext'', ExtensionPoint 10 ''ext.q'')] ''p'' =
         Inl e)"
proof -
  let ?b = foreign_plugin_backend
  let ?ix = "the (start_index example_env ?b)"
  let ?pi = "the (map_of (pluginInits ?ix) ''p'')"
  let ?ep = "the (ix_extensionPoints ?ix ''ext.q'')"
  have "start_index example_env ?b \<noteq> None" by code_simp
  then have ix: "start_index example_env ?b = Some ?ix" by (rule Some_the)
  have "map_of (pluginInits ?ix) ''p'' \<noteq> None" by code_simp
  then have pl: "map_of (pluginInits ?ix) ''p'' = Some ?pi" by (rule Some_the)
  have ds: "deps (init ?pi) = [(''ext'', ExtensionPoint 10 ''ext.q'')]" by code_simp
  then have d: "(''ext'', ExtensionPoint 10 ''ext.q'') \<in> set (deps (init ?pi))" by simp
  have "ix_extensionPoints ?ix ''ext.q'' \<noteq> None" by code_simp
  then have "ix_extensionPoints ?ix ''ext.q'' = Some ?ep" by (rule Some_the)
  then have ep: "ix_extensionPoints ?ix (ref_id (ExtensionPoint 10 ''ext.q'')) = Some ?ep" by simp
  have ne: "ep_pluginId ?ep \<noteq> ''p''" by code_simp
  have sp: "startPromise ?b = None" by code_simp
  have se: "start_errors example_env ?b ?ix = [ExtensionPointOwnershipViolation ''q'' ''p'']"
    by code_simp
  from foreign_extension_point_in_plugin[OF ix pl d ep ne, of "[]"] ds sp se
  show ?thesis by simp
qed


text \<open>
  Claim C10 as stated fails: when a module of \<open>p\<close> fails first, the dependencies of
  the plugin are never resolved, and \<open>start\<close> fails with the error of the module, not
  with the ownership violation.
\<close>

theorem foreign_extension_point_in_plugin_counterexample:
  "map_option ep_pluginId
     (extensionPoints (snd (start example_env [] failing_module_foreign_plugin_backend)) ''ext.q'') =
     Some ''q'' \<and>
   map (\<lambda>(p, pluginInit). (p, map snd (deps (init pluginInit))))
     (pluginInits (the (start_index example_env failing_module_foreign_plugin_backend))) =
     [(''q'', []), (''p'', [ExtensionPoint 10 ''ext.q''])] \<and>
   fst (start example_env [] failing_module_foreign_plugin_backend) =
     Rejected (ModuleStartupFailed ''m'' ''p'' (External ''boom''))"
  by code_simp

section \<open>Process listeners\<close>

lemma stop_listeners: "listeners (snd (stop b)) = listeners b"
  unfolding stop_def root_shutdown_def
  by (auto simp: Let_def split: option.splits outcome.splits sum.splits)

lemma exitHandler_code:
  "exitCode (exitHandler b) =
     (case fst (stop (b\<lparr>listeners :=
                   removeListener ''beforeExit'' ExitHandler
                     (removeListener ''SIGINT'' ExitHandler
                        (removeListener ''SIGTERM'' ExitHandler (listeners b)))\<rparr>)) of
        Fulfilled \<Rightarrow> Some 0 | Rejected e \<Rightarrow> Some 1 | Pending \<Rightarrow> exitCode b)"
  unfolding exitHandler_def stop_def root_shutdown_def getRootLifecycleImpl_def
  by (auto simp: Let_def split: option.splits outcome.splits sum.splits impl.splits prod.splits)

lemma exitHandler_listeners:
  "listeners (exitHandler b) =
     removeListener ''beforeExit'' ExitHandler
       (removeListener ''SIGINT'' ExitHandler
          (removeListener ''SIGTERM'' ExitHandler (listeners b)))"
proof -
  let ?b1 = "b\<lparr>listeners :=
                   removeListener ''beforeExit'' ExitHandler
                     (removeListener ''SIGINT'' ExitHandler
                        (removeListener ''SIGTERM'' ExitHandler (listeners b)))\<rparr>"
  have "listeners (exitHandler b) = listeners (snd (stop ?b1))"
    unfolding exitHandler_def Let_def by (cases "stop ?b1" rule: prod.exhaust) (auto split: outcome.splits)
  with stop_listeners[of ?b1] show ?thesis by simp
qed

lemma exitHandler_events: "events (exitHandler b) = events (snd (stop b))"
  unfolding exitHandler_def stop_def root_shutdown_def getRootLifecycleImpl_def
  by (auto simp: Let_def split: option.splits outcome.splits sum.splits impl.splits prod.splits)

lemma removeListener_last:
  "(ev, l) \<notin> set ys \<Longrightarrow> removeListener ev l (xs @ (ev, l) # ys) = xs @ ys"
  by (simp add: removeListener_def remove1_append)

lemma removeListener_exit_handlers:
  assumes "\<forall>(ev, l) \<in> set ys. l \<noteq> ExitHandler"
  shows "removeListener ''beforeExit'' ExitHandler
           (removeListener ''SIGINT'' ExitHandler
              (removeListener ''SIGTERM'' ExitHandler
                 (xs @ [(''SIGTERM'', ExitHandler), (''SIGINT'', ExitHandler),
                        (''beforeExit'', ExitHandler)] @ ys))) = xs @ ys"
proof -
  from assms have n: "(ev, ExitHandler) \<notin> set ys" for ev by auto
  have 1: "removeListener ''SIGTERM'' ExitHandler
             (xs @ [(''SIGTERM'', ExitHandler), (''SIGINT'', ExitHandler),
                    (''beforeExit'', ExitHandler)] @ ys) =
           xs @ (''SIGINT'', ExitHandler) # (''beforeExit'', ExitHandler) # ys"
    using removeListener_last[of "''SIGTERM''" ExitHandler
        "(''SIGINT'', ExitHandler) # (''beforeExit'', ExitHandler) # ys" xs] n
    by simp
  have 2: "removeListener ''SIGINT'' ExitHandler
             (xs @ (''SIGINT'', ExitHandler) # (''beforeExit'', ExitHandler) # ys) =
           xs @ (''beforeExit'', ExitHandler) # ys"
    using removeListener_last[of "''SIGINT''" ExitHandler "(''beforeExit'', ExitHandler) # ys" xs] n
    by simp
  have 3: "removeListener ''beforeExit'' ExitHandler (xs @ (''beforeExit'', ExitHandler) # ys) = xs @ ys"
    using removeListener_last[of "''beforeExit''" ExitHandler ys xs] n by simp
  show ?thesis unfolding 1 2 3 ..
qed

text \<open>
  Claim C5, as amended. The three signal handlers (\<open>SIGTERM\<close>, \<open>SIGINT\<close>,
  \<open>beforeExit\<close>) are installed by every call of \<open>start\<close> that passes the
  already-started guard, before \<open>#doStart\<close> runs: whether or not the start later
  succeeds, and in test mode too. The two handlers for unhandled errors are installed
  only when the start has succeeded, and only outside test mode. An exit handler
  removes the three listeners (after a \<open>start\<close>, exactly those that this \<open>start\<close>
  installed), calls \<open>stop\<close> and exits with code 0 when \<open>stop\<close> resolves and 1 when
  it is rejected.
\<close>

theorem signal_handlers_installed_by_start:
  "startPromise b = None \<Longrightarrow>
     listeners (snd (start en sched b)) =
       listeners b @
       [(''SIGTERM'', ExitHandler), (''SIGINT'', ExitHandler), (''beforeExit'', ExitHandler)] @
       (if fst (start en sched b) = Fulfilled \<and> \<not> test_mode en
        then [(''unhandledRejection'', LogUnhandledRejection),
              (''uncaughtException'', LogUncaughtException)]
        else []) \<and>
     listeners (exitHandler (snd (start en sched b))) =
       listeners b @
       (if fst (start en sched b) = Fulfilled \<and> \<not> test_mode en
        then [(''unhandledRejection'', LogUnhandledRejection),
              (''uncaughtException'', LogUncaughtException)]
        else []) \<and>
     listeners (exitHandler b') =
       removeListener ''beforeExit'' ExitHandler
         (removeListener ''SIGINT'' ExitHandler
            (removeListener ''SIGTERM'' ExitHandler (listeners b'))) \<and>
     events (exitHandler b') = events (snd (stop b')) \<and>
     exitCode (exitHandler b') =
       (case fst (stop (b'\<lparr>listeners :=
               removeListener ''beforeExit'' ExitHandler
                 (removeListener ''SIGINT'' ExitHandler
                    (removeListener ''SIGTERM'' ExitHandler (listeners b')))\<rparr>)) of
          Fulfilled \<Rightarrow> Some 0 | Rejected e \<Rightarrow> Some 1 | Pending \<Rightarrow> exitCode b')"
proof -
  assume n: "startPromise b = None"
  let ?hooks = "if fst (start en sched b) = Fulfilled \<and> \<not> test_mode en
        then [(''unhandledRejection'', LogUnhandledRejection),
              (''uncaughtException'', LogUncaughtException)]
        else []"
  from n start_frame(4)[of b en sched "fst (start en sched b)" "snd (start en sched b)"]
  have l: "listeners (snd (start en sched b)) =
       listeners b @
       [(''SIGTERM'', ExitHandler), (''SIGINT'', ExitHandler), (''beforeExit'', ExitHandler)] @ ?hooks"
    by simp
  have h: "\<forall>(ev, l) \<in> set ?hooks. l \<noteq> ExitHandler" by auto
  have r: "listeners (exitHandler (snd (start en sched b))) = listeners b @ ?hooks"
    unfolding exitHandler_listeners l by (rule removeListener_exit_handlers[OF h])
  from l r exitHandler_listeners[of b'] exitHandler_events[of b'] exitHandler_code[of b']
  show ?thesis by simp
qed

text \<open>The theorem at the initializer with the default services, outside and in test mode.\<close>

theorem signal_handlers_installed_by_start_witness:
  "listeners (snd (start example_env [] (BackendInitializer default_factories))) =
     [(''SIGTERM'', ExitHandler), (''SIGINT'', ExitHandler), (''beforeExit'', ExitHandler),
      (''unhandledRejection'', LogUnhandledRejection), (''uncaughtException'', LogUncaughtException)] \<and>
   listeners (snd (start test_env [] (BackendInitializer default_factories))) =
     [(''SIGTERM'', ExitHandler), (''SIGINT'', ExitHandler), (''beforeExit'', ExitHandler)] \<and>
   listeners (exitHandler (snd (start example_env [] (BackendInitializer default_factories)))) =
     [(''unhandledRejection'', LogUnhandledRejection), (''uncaughtException'', LogUncaughtException)] \<and>
   listeners (exitHandler (snd (start test_env [] (BackendInitializer default_factories)))) = [] \<and>
   exitCode (exitHandler (snd (start example_env [] (BackendInitializer default_factories)))) = Some 0"
proof -
  let ?b = "BackendInitializer default_factories"
  have n: "startPromise ?b = None" by code_simp
  have l: "listeners ?b = []" by code_simp
  have f1: "fst (start example_env [] ?b) = Fulfilled" by code_simp
  have f2: "fst (start test_env [] ?b) = Fulfilled" by code_simp
  have t1: "test_mode example_env = False" by code_simp
  have t2: "test_mode test_env = True" by code_simp
  have x: "exitCode (exitHandler (snd (start example_env [] ?b))) = Some 0" by code_simp
  note A = signal_handlers_installed_by_start[OF n, of example_env "[]" ?b]
  note B = signal_handlers_installed_by_start[OF n, of test_env "[]" ?b]
  from A l f1 t1 have a:
    "listeners (snd (start example_env [] ?b)) =
       [(''SIGTERM'', ExitHandler), (''SIGINT'', ExitHandler), (''beforeExit'', ExitHandler),
        (''unhandledRejection'', LogUnhandledRejection), (''uncaughtException'', LogUncaughtException)] \<and>
     listeners (exitHandler (snd (start example_env [] ?b))) =
       [(''unhandledRejection'', LogUnhandledRejection), (''uncaughtException'', LogUncaughtException)]"
    by simp
  from B l f2 t2 have b:
    "listeners (snd (start test_env [] ?b)) =
       [(''SIGTERM'', ExitHandler), (''SIGINT'', ExitHandler), (''beforeExit'', ExitHandler)] \<and>
     listeners (exitHandler (snd (start test_env [] ?b))) = []"
    by simp
  from a b x show ?thesis by simp
qed

text \<open>
  Claim C5 as stated fails: in test mode, a \<open>start\<close> that is rejected (the backend
  never runs) still leaves the three signal handlers installed.
\<close>

theorem signal_handlers_counterexample:
  "test_mode test_env \<and>
   fst (start test_env [] (BackendInitializer [])) = Rejected UnexpectedRootLifecycle \<and>
   listeners (snd (start test_env [] (BackendInitializer []))) =
     [(''SIGTERM'', ExitHandler), (''SIGINT'', ExitHandler), (''beforeExit'', ExitHandler)]"
  by code_simp

section \<open>stop after a failed start\<close>

lemma start_twice: "startPromise b \<noteq> None \<Longrightarrow> start en sched b = (Rejected AlreadyStarted, b)"
  by (simp add: start_def)

lemma stop_startPromise: "startPromise (snd (stop b)) = startPromise b"
  unfolding stop_def root_shutdown_def
  by (auto simp: Let_def split: option.splits outcome.splits sum.splits)

text \<open>
  Claim C6, as amended. After a \<open>start\<close> whose promise was rejected, any further call
  of \<open>start\<close> fails with \<open>AlreadyStarted\<close>, also after a \<open>stop\<close>. \<open>stop\<close> ignores
  the start error and resolves the root lifecycle service: when that service is the
  expected implementation, \<open>stop\<close> invokes its \<open>shutdown()\<close> and resolves successfully;
  when its resolution fails, \<open>stop\<close> is rejected with that error and \<open>shutdown()\<close> is
  not invoked.
\<close>

theorem failed_start_then_stop:
  assumes "startPromise b = None" and "start en sched b = (Rejected e, b')"
  shows "fst (start en' sched' b') = Rejected AlreadyStarted \<and>
         fst (start en' sched' (snd (stop b'))) = Rejected AlreadyStarted \<and>
         (get (registry en b) rootLifecycle_ref ''root'' = Inr (Some BackendLifecycleImpl) \<and>
          \<not> rootShutdownInvoked b \<longrightarrow>
            fst (stop b') = Fulfilled \<and> events (snd (stop b')) = events b' @ [RootShutdownInvoked]) \<and>
         (\<forall>e'. getRootLifecycleImpl b' = Inl e' \<longrightarrow> stop b' = (Rejected e', b'))"
proof -
  note fr = start_frame[OF assms]
  have sp: "startPromise b' = Some (Rejected e)" using fr(2) .
  have a: "fst (start en' sched' b') = Rejected AlreadyStarted"
    using sp by (simp add: start_twice)
  have b: "fst (start en' sched' (snd (stop b'))) = Rejected AlreadyStarted"
    using sp by (simp add: start_twice stop_startPromise)
  have c: "fst (stop b') = Fulfilled \<and> events (snd (stop b')) = events b' @ [RootShutdownInvoked]"
    if "get (registry en b) rootLifecycle_ref ''root'' = Inr (Some BackendLifecycleImpl)"
      and "\<not> rootShutdownInvoked b"
    using that sp fr(1) fr(3)
    by (simp add: stop_def root_shutdown_def getRootLifecycleImpl_def Let_def)
  have d: "stop b' = (Rejected e', b')" if "getRootLifecycleImpl b' = Inl e'" for e'
    using that sp by (simp add: stop_def)
  from a b c d show ?thesis by blast
qed

text \<open>
  The theorem where the \<open>init.func\<close> of a module rejects with cause \<open>boom\<close>.
\<close>

theorem failed_start_then_stop_witness:
  "start example_env [] failing_module_backend =
     (Rejected (ModuleStartupFailed ''m'' ''p'' (External ''boom'')),
      snd (start example_env [] failing_module_backend)) \<and>
   fst (stop (snd (start example_env [] failing_module_backend))) = Fulfilled \<and>
   events (snd (stop (snd (start example_env [] failing_module_backend)))) =
     [ModuleInitInvoked ''p'' ''m'', ModuleInitRejected ''p'' ''m'', RootShutdownInvoked] \<and>
   fst (start example_env [] (snd (start example_env [] failing_module_backend))) =
     Rejected AlreadyStarted"
proof -
  let ?b = failing_module_backend
  let ?b' = "snd (start example_env [] ?b)"
  have n: "startPromise ?b = None" by code_simp
  have f: "fst (start example_env [] ?b) = Rejected (ModuleStartupFailed ''m'' ''p'' (External ''boom''))"
    by code_simp
  then have st: "start example_env [] ?b =
      (Rejected (ModuleStartupFailed ''m'' ''p'' (External ''boom'')), ?b')"
    by (simp add: prod_eq_iff)
  have g: "get (registry example_env ?b) rootLifecycle_ref ''root'' = Inr (Some BackendLifecycleImpl)"
    by code_simp
  have r: "\<not> rootShutdownInvoked ?b" by code_simp
  have ev: "events ?b' = [ModuleInitInvoked ''p'' ''m'', ModuleInitRejected ''p'' ''m'']"
    by code_simp
  from failed_start_then_stop[OF n st, of example_env "[]"] g r ev st
  show ?thesis by simp
qed

text \<open>
  Claim C6 as stated fails: without a root lifecycle service, \<open>start\<close> is rejected, and
  so is the \<open>stop\<close> that follows; \<open>shutdown()\<close> is never invoked.
\<close>

theorem failed_start_then_stop_counterexample:
  "fst (start example_env [] (BackendInitializer [])) = Rejected UnexpectedRootLifecycle \<and>
   fst (stop (snd (start example_env [] (BackendInitializer [])))) = Rejected UnexpectedRootLifecycle \<and>
   RootShutdownInvoked \<notin> set (events (snd (stop (snd (start example_env [] (BackendInitializer []))))))"
  by code_simp

section \<open>Missing refs are reported together\<close>

lemma getInitDeps_missing_refs:
  assumes "\<forall>(n, r) \<in> set ds. \<not> foreign eps p r \<and> \<not> throws eps h p r"
  shows "\<exists>result. getInitDeps eps h ds p =
           (if missing_refs eps h p ds \<noteq> [] then Inl (UnresolvedDependencies (missing_refs eps h p ds))
            else Inr result)"
proof -
  from loop_complete[OF assms, of "[]" "[]"] obtain res' where
    "getInitDeps_loop eps h p ds [] [] = Inr (res', missing_refs eps h p ds)"
    by (auto simp: missing_refs_def new_Set_def)
  then have "getInitDeps eps h ds p =
      (if missing_refs eps h p ds \<noteq> [] then Inl (UnresolvedDependencies (missing_refs eps h p ds))
       else Inr res')"
    by (simp add: getInitDeps_def)
  then show ?thesis by blast
qed

lemma set_missing_refs:
  "set (missing_refs eps h p ds) = {r \<in> snd ` set ds. is_missing eps h p r}"
  by (auto simp: missing_refs_def set_new_Set)

text \<open>
  Claim C7, as amended. When no dependency references an extension point recorded for
  another plugin and no service lookup throws, the resolution of \<open>init.deps\<close> collects
  every ref that is neither a registered extension point nor a resolvable service; if
  any ref is missing, it fails with a single \<open>UnresolvedDependencies\<close> error listing
  all of them, and otherwise it succeeds.
\<close>

theorem missing_refs_batched:
  assumes "\<forall>(n, r) \<in> set ds. \<not> foreign eps p r \<and> \<not> throws eps h p r"
  shows "((\<exists>(n, r) \<in> set ds. is_missing eps h p r) \<longrightarrow>
            (\<exists>missing. getInitDeps eps h ds p = Inl (UnresolvedDependencies missing) \<and>
               set missing = {r \<in> snd ` set ds. is_missing eps h p r})) \<and>
         ((\<forall>(n, r) \<in> set ds. \<not> is_missing eps h p r) \<longrightarrow>
            (\<exists>result. getInitDeps eps h ds p = Inr result))"
proof -
  from getInitDeps_missing_refs[OF assms] obtain result where
    g: "getInitDeps eps h ds p =
          (if missing_refs eps h p ds \<noteq> [] then Inl (UnresolvedDependencies (missing_refs eps h p ds))
           else Inr result)" by blast
  note m = set_missing_refs[of eps h p ds]
  have ne: "missing_refs eps h p ds \<noteq> []" if "\<exists>(n, r) \<in> set ds. is_missing eps h p r"
  proof -
    from that obtain n r where "(n, r) \<in> set ds" "is_missing eps h p r" by blast
    then have "r \<in> {r \<in> snd ` set ds. is_missing eps h p r}" by force
    with m show ?thesis by auto
  qed
  have em: "missing_refs eps h p ds = []" if "\<forall>(n, r) \<in> set ds. \<not> is_missing eps h p r"
  proof -
    from that have "{r \<in> snd ` set ds. is_missing eps h p r} = {}" by auto
    with m show ?thesis by simp
  qed
  show ?thesis
  proof (intro conjI impI)
    assume "\<exists>(n, r) \<in> set ds. is_missing eps h p r"
    from ne[OF this] g
    have "getInitDeps eps h ds p = Inl (UnresolvedDependencies (missing_refs eps h p ds))" by simp
    with m show "\<exists>missing. getInitDeps eps h ds p = Inl (UnresolvedDependencies missing) \<and>
               set missing = {r \<in> snd ` set ds. is_missing eps h p r}" by blast
  next
    assume "\<forall>(n, r) \<in> set ds. \<not> is_missing eps h p r"
    from em[OF this] g show "\<exists>result. getInitDeps eps h ds p = Inr result" by simp
  qed
qed

text \<open>
  The theorem at six dependencies: a missing service listed twice, a second ref object
  with the same id, another missing service, a resolvable service and an extension
  point of the plugin itself.
\<close>

theorem missing_refs_batched_witness:
  "getInitDeps table_q (example_registry default_factories)
     [(''a'', ServiceRef 21 ''svc.none'' PluginScope), (''log'', rootLogger_ref),
      (''b'', ServiceRef 22 ''svc.void'' PluginScope), (''c'', ServiceRef 21 ''svc.none'' PluginScope),
      (''d'', ServiceRef 24 ''svc.none'' PluginScope), (''e'', ExtensionPoint 10 ''ext.q'')] ''q'' =
   Inl (UnresolvedDependencies
          [ServiceRef 21 ''svc.none'' PluginScope, ServiceRef 22 ''svc.void'' PluginScope,
           ServiceRef 24 ''svc.none'' PluginScope]) \<and>
   (\<exists>missing. getInitDeps table_q (example_registry default_factories)
     [(''a'', ServiceRef 21 ''svc.none'' PluginScope), (''log'', rootLogger_ref),
      (''b'', ServiceRef 22 ''svc.void'' PluginScope), (''c'', ServiceRef 21 ''svc.none'' PluginScope),
      (''d'', ServiceRef 24 ''svc.none'' PluginScope), (''e'', ExtensionPoint 10 ''ext.q'')] ''q'' =
      Inl (UnresolvedDependencies missing) \<and>
      set missing = {ServiceRef 21 ''svc.none'' PluginScope, ServiceRef 22 ''svc.void'' PluginScope,
                     ServiceRef 24 ''svc.none'' PluginScope})"
proof -
  let ?ds = "[(''a'', ServiceRef 21 ''svc.none'' PluginScope), (''log'', rootLogger_ref),
      (''b'', ServiceRef 22 ''svc.void'' PluginScope), (''c'', ServiceRef 21 ''svc.none'' PluginScope),
      (''d'', ServiceRef 24 ''svc.none'' PluginScope), (''e'', ExtensionPoint 10 ''ext.q'')]"
  let ?h = "example_registry default_factories"
  have ok: "\<forall>(n, r) \<in> set ?ds. \<not> foreign table_q ''q'' r \<and> \<not> throws table_q ?h ''q'' r"
    by code_simp
  have mi: "\<exists>(n, r) \<in> set ?ds. is_missing table_q ?h ''q'' r"
    by code_simp
  have mr: "missing_refs table_q ?h ''q'' ?ds =
      [ServiceRef 21 ''svc.none'' PluginScope, ServiceRef 22 ''svc.void'' PluginScope,
       ServiceRef 24 ''svc.none'' PluginScope]"
    by code_simp
  have ms: "{r \<in> snd ` set ?ds. is_missing table_q ?h ''q'' r} =
      {ServiceRef 21 ''svc.none'' PluginScope, ServiceRef 22 ''svc.void'' PluginScope,
       ServiceRef 24 ''svc.none'' PluginScope}"
    unfolding set_missing_refs[symmetric] mr by simp
  have v: "getInitDeps table_q ?h ?ds ''q'' =
      Inl (UnresolvedDependencies
          [ServiceRef 21 ''svc.none'' PluginScope, ServiceRef 22 ''svc.void'' PluginScope,
           ServiceRef 24 ''svc.none'' PluginScope])"
    by code_simp
  from missing_refs_batched[OF ok] mi ms v show ?thesis by simp
qed

text \<open>
  Claim C7 as stated fails: with a missing service and an extension point of another
  plugin among the dependencies, the resolution fails with the ownership violation, and
  the missing ref is not reported.
\<close>

theorem missing_refs_batched_counterexample:
  "is_missing table_q (example_registry default_factories) ''p'' (ServiceRef 21 ''svc.none'' PluginScope) \<and>
   getInitDeps table_q (example_registry default_factories)
     [(''a'', ServiceRef 21 ''svc.none'' PluginScope), (''e'', ExtensionPoint 10 ''ext.q'')] ''p'' =
   Inl (ExtensionPointOwnershipViolation ''q'' ''p'')"
  by code_simp

section \<open>Features of the discovery service\<close>

lemma addFeature_provided:
  "providedServiceFactories b = providedServiceFactories b2 \<Longrightarrow>
   (case addFeature f b of Inl e \<Rightarrow> addFeature f b2 = Inl e
    | Inr b' \<Rightarrow> (\<exists>b2'. addFeature f b2 = Inr b2' \<and>
                    providedServiceFactories b' = providedServiceFactories b2'))"
  by (auto simp: addFeature_def split: if_splits option.splits)

lemma addFeatures_provided:
  "providedServiceFactories b = providedServiceFactories b2 \<Longrightarrow>
   fst (addFeatures fs b) = fst (addFeatures fs b2) \<and>
   providedServiceFactories (snd (addFeatures fs b)) = providedServiceFactories (snd (addFeatures fs b2))"
proof (induction fs arbitrary: b b2)
  case Nil
  then show ?case by simp
next
  case (Cons f fs)
  show ?case
  proof (cases "addFeature f b")
    case (Inl e)
    with addFeature_provided[OF Cons.prems, of f] have "addFeature f b2 = Inl e" by simp
    with Inl Cons.prems show ?thesis by simp
  next
    case (Inr b')
    with addFeature_provided[OF Cons.prems, of f]
    obtain b2' where b2': "addFeature f b2 = Inr b2'"
      and eq: "providedServiceFactories b' = providedServiceFactories b2'"
      by auto
    from Cons.IH[OF eq] Inr b2' show ?thesis by simp
  qed
qed

lemma prepare_discovered:
  assumes "get h featureDiscoveryServiceRef ''root'' = Inr (Some fd)"
    and "getBackendFeatures en fd = Inr fs"
  shows "providedServiceFactories (snd (prepare en h b)) = providedServiceFactories (snd (addFeatures fs b))"
    and "fst (addFeatures fs b) = Some e \<Longrightarrow> prepare en h b = (Inl e, snd (addFeatures fs b))"
  using assms unfolding prepare_def discover_def
  by (auto split: prod.splits option.splits)

lemma finish_start_provided:
  "providedServiceFactories (snd (finish_start en h b)) = providedServiceFactories b"
  unfolding finish_start_def root_startup_def
  by (auto simp: Let_def split: sum.splits option.splits prod.splits if_splits)

lemma doStart_provided:
  "providedServiceFactories (snd (doStart en sched b)) =
   providedServiceFactories (snd (prepare en (registry en b) (b\<lparr>serviceHolder := Some (registry en b)\<rparr>)))"
  unfolding doStart_def
  by (auto simp: Let_def finish_start_provided split: sum.splits prod.splits outcome.splits)

text \<open>
  Claim C9. When the feature-discovery service returns features during \<open>start\<close>, the
  service holder is the registry created from the default factories and the factories
  provided before \<open>start\<close>: it is created before discovery runs and never replaced. The
  discovered features go through the classification rules of \<open>#addFeature\<close>: a
  service factory among them is appended to the provided factories, or makes \<open>start\<close>
  fail with the error of the rule it breaks; it is never installed in the registry.
\<close>

theorem discovered_factories_not_installed:
  assumes "startPromise b = None"
    and "get (registry en b) featureDiscoveryServiceRef ''root'' = Inr (Some fd)"
    and "getBackendFeatures en fd = Inr fs"
  shows "serviceHolder (snd (start en sched b)) =
           Some (ServiceRegistry_create en (defaultApiFactories b @ providedServiceFactories b)) \<and>
         providedServiceFactories (snd (start en sched b)) =
           providedServiceFactories (snd (addFeatures fs b)) \<and>
         (\<forall>e. fst (addFeatures fs b) = Some e \<longrightarrow> fst (start en sched b) = Rejected e)"
proof -
  let ?h = "registry en b"
  let ?b1 = "b\<lparr>listeners := listeners b @
                [(''SIGTERM'', ExitHandler), (''SIGINT'', ExitHandler), (''beforeExit'', ExitHandler)]\<rparr>"
  let ?b2 = "?b1\<lparr>serviceHolder := Some ?h\<rparr>"
  have h1: "registry en ?b1 = ?h" by (simp add: registry_def)
  have a: "serviceHolder (snd (start en sched b)) = Some ?h"
    using start_frame(1)[OF assms(1), of en sched "fst (start en sched b)" "snd (start en sched b)"]
    by simp
  have pv: "providedServiceFactories ?b2 = providedServiceFactories b" by simp
  have "providedServiceFactories (snd (start en sched b)) =
        providedServiceFactories (snd (doStart en sched ?b1))"
    using assms(1) by (simp add: start_def Let_def split: prod.splits)
  also have "\<dots> = providedServiceFactories (snd (prepare en ?h ?b2))"
    by (simp add: doStart_provided h1)
  also have "\<dots> = providedServiceFactories (snd (addFeatures fs ?b2))"
    using prepare_discovered(1)[OF assms(2,3)] by simp
  also have "\<dots> = providedServiceFactories (snd (addFeatures fs b))"
    using addFeatures_provided[OF pv] by simp
  finally have b: "providedServiceFactories (snd (start en sched b)) =
                   providedServiceFactories (snd (addFeatures fs b))" .
  have c: "fst (start en sched b) = Rejected e" if "fst (addFeatures fs b) = Some e" for e
  proof -
    from that addFeatures_provided[OF pv, of fs] have "fst (addFeatures fs ?b2) = Some e" by simp
    from prepare_discovered(2)[OF assms(2,3) this]
    have "fst (doStart en sched ?b1) = Rejected e"
      by (simp add: doStart_def h1 Let_def)
    then show ?thesis using assms(1) by (auto simp: start_def Let_def split: prod.splits)
  qed
  from a b c show ?thesis by (simp add: registry_def)
qed

text \<open>
  The theorem with a discovery service returning a factory for \<open>svc.x\<close> (recorded, but
  not resolvable), the same factory twice, and an override of the plugin metadata
  service.
\<close>

theorem discovered_factories_not_installed_witness:
  "get (the (serviceHolder (snd (start
       (discovery_env [service_factory (ServiceRef 23 ''svc.x'' PluginScope)]) [] discovery_backend))))
     (ServiceRef 23 ''svc.x'' PluginScope) ''p'' = Inr None \<and>
   map service (providedServiceFactories (snd (start
       (discovery_env [service_factory (ServiceRef 23 ''svc.x'' PluginScope)]) [] discovery_backend))) =
     [Some (ServiceRef 23 ''svc.x'' PluginScope)] \<and>
   fst (start (discovery_env [service_factory (ServiceRef 23 ''svc.x'' PluginScope),
                              service_factory (ServiceRef 23 ''svc.x'' PluginScope)]) [] discovery_backend) =
     Rejected (DuplicateServiceImpl ''svc.x'') \<and>
   fst (start (discovery_env [service_factory (ServiceRef 5 ''core.pluginMetadata'' PluginScope)]) []
          discovery_backend) =
     Rejected (ForbiddenServiceOverride ''core.pluginMetadata'')"
proof -
  let ?x = "service_factory (ServiceRef 23 ''svc.x'' PluginScope)"
  let ?m = "service_factory (ServiceRef 5 ''core.pluginMetadata'' PluginScope)"
  let ?b = discovery_backend
  have n: "startPromise ?b = None" by code_simp
  have g: "get (registry (discovery_env fs) ?b) featureDiscoveryServiceRef ''root'' =
             Inr (Some FeatureDiscoveryImpl)" for fs
    by (simp add: registry_def discovery_env_def example_env_def example_registry_def
        discovery_backend_def BackendInitializer_def default_factories_def service_factory_def
        featureDiscoveryServiceRef_def rootLogger_ref_def rootLifecycle_ref_def lifecycle_ref_def
        impl_for_def)
  have d: "getBackendFeatures (discovery_env fs) FeatureDiscoveryImpl = Inr fs" for fs
    by (simp add: discovery_env_def example_env_def)
  have c: "ServiceRegistry_create (discovery_env fs) = example_registry" for fs
    by (simp add: discovery_env_def example_env_def)
  have r: "get (example_registry (defaultApiFactories ?b @ providedServiceFactories ?b))
             (ServiceRef 23 ''svc.x'' PluginScope) ''p'' = Inr None"
    by code_simp
  have p1: "map service (providedServiceFactories (snd (addFeatures [?x] ?b))) =
              [Some (ServiceRef 23 ''svc.x'' PluginScope)]"
    by code_simp
  have e2: "fst (addFeatures [?x, ?x] ?b) = Some (DuplicateServiceImpl ''svc.x'')" by code_simp
  have e3: "fst (addFeatures [?m] ?b) = Some (ForbiddenServiceOverride ''core.pluginMetadata'')"
    by code_simp
  from discovered_factories_not_installed[OF n g d, of "[?x]" "[]"]
       discovered_factories_not_installed[OF n g d, of "[?x, ?x]" "[]"]
       discovered_factories_not_installed[OF n g d, of "[?m]" "[]"]
       c r p1 e2 e3
  show ?thesis by simp
qed

end
